theory Spec2Isabelle
  imports Complex_Main "HOL-Library.Word"
begin

section \<open>PNG-JS: chunk parser, scanline defilterer and sub-image extractor\<close>

text \<open>
  A shallow embedding of \<^verbatim>\<open>src/png_utils.js\<close> (class \<^verbatim>\<open>png\<close>): the methods
  \<^verbatim>\<open>parseChunks\<close>, \<^verbatim>\<open>reverseFiltering\<close> and \<^verbatim>\<open>subImage\<close>.

  Conventions of the embedding.
  \<^item> A JavaScript exception is a value of type \<open>error\<close>; a method that can throw returns
    \<open>error + result\<close>, with \<open>Inl\<close> for the exception.
  \<^item> The bytes of an \<^verbatim>\<open>ArrayBuffer\<close> or \<^verbatim>\<open>Uint8Array\<close> are \<open>8 word\<close>.
  \<^item> Array indices and byte counts are \<open>nat\<close>; channel values, which the Paeth predictor
    subtracts, are \<open>int\<close>; the numbers handed to \<^verbatim>\<open>subImage\<close>, which the source tests
    only with \<^verbatim>\<open>typeof\<close>, are doubles (type \<open>jsnum\<close>: the finite values, \<^verbatim>\<open>NaN\<close> and
    the infinities, with sums that round).
  \<^item> Reading an array outside its bounds yields \<^verbatim>\<open>undefined\<close>, here \<open>None\<close>.
\<close>

subsection \<open>Errors and warnings\<close>

text \<open>
  One constructor for each way the three methods can throw. The messages of the source are
  \<^item> \<open>InvalidPalette\<close>: \<^verbatim>\<open>"PLTE chunk length must be divisible by 3."\<close>
  \<^item> \<open>MissingPalette\<close>: \<^verbatim>\<open>"Images of colourtype 3 must include a PLTE chunk."\<close>
  \<^item> \<open>UnexpectedFilterByte\<close>: \<^verbatim>\<open>"Unexpected filter byte."\<close>
  \<^item> \<open>IncorrectGridType\<close>: \<^verbatim>\<open>"Incorrect type for imageDataBuffer. ..."\<close>
  \<^item> \<open>InvalidTileSize\<close>: \<^verbatim>\<open>"Invalid tileSize: ..."\<close>
  \<^item> \<open>InvalidMargins\<close>: \<^verbatim>\<open>"Invalid margins: ..."\<close>
  \<^item> \<open>SubImageExtractionError e\<close>: \<^verbatim>\<open>"Error trying to get subimage. " + e.message\<close>
  \<open>RangeError\<close> is thrown by the \<^verbatim>\<open>DataView\<close> getters for a read that does not fit the
  buffer, \<open>TypeError\<close> by the runtime when a property of \<^verbatim>\<open>undefined\<close> is read; the
  source throws neither by itself.

  \<open>NotANumber\<close> is not an exception: where the source would read a channel that does not
  exist and go on computing with \<^verbatim>\<open>NaN\<close>, the embedding, whose channels are integers,
  stops with this outcome. For a positive image width it never arises (lemma
  \<open>reverseFiltering_outcomes\<close> below).
\<close>

datatype error =
    RangeError
  | TypeError
  | NotANumber
  | InvalidPalette
  | MissingPalette
  | UnexpectedFilterByte
  | IncorrectGridType
  | InvalidTileSize
  | InvalidMargins
  | SubImageExtractionError error


text \<open>The one call of \<^verbatim>\<open>console.warn\<close>, with the colour type it prints.\<close>

datatype warning = PLTEIgnored nat

subsection \<open>JavaScript arrays\<close>

text \<open>\<^verbatim>\<open>xs[k]\<close>: the element, or \<^verbatim>\<open>undefined\<close> outside the array.\<close>

definition element :: "'a list \<Rightarrow> int \<Rightarrow> 'a option" where
  "element xs k = (if 0 \<le> k \<and> nat k < length xs then Some (xs ! nat k) else None)"

text \<open>
  \<^verbatim>\<open>Array.prototype.slice(start, end)\<close> on integer arguments: a negative argument counts
  from the end of the array, both are clamped to the array, and nothing is thrown.
\<close>

definition relative_index :: "int \<Rightarrow> nat \<Rightarrow> nat" where
  "relative_index k len = (if k < 0 then nat (max (int len + k) 0) else min (nat k) len)"

definition js_slice :: "'a list \<Rightarrow> int \<Rightarrow> int \<Rightarrow> 'a list" where
  "js_slice xs start end =
     (let k = relative_index start (length xs);
          final = relative_index end (length xs)
      in take (final - k) (drop k xs))"

text \<open>
  \<^verbatim>\<open>xs[k] = v\<close>. The source assigns only at \<^verbatim>\<open>k = xs.length\<close>, which appends
  (lemma \<open>start_line_next\<close> below); an assignment further out would leave holes, which a
  list cannot hold.
\<close>

definition assign :: "'a list \<Rightarrow> int \<Rightarrow> 'a \<Rightarrow> 'a list" where
  "assign xs k v = (if nat k < length xs then xs[nat k := v] else xs @ [v])"

subsection \<open>parseChunks\<close>

record chunk_info =
  widthPixels :: nat
  heightPixels :: nat
  bitDepth :: nat
  colourType :: nat
  compressionMethod :: int
  filterMethod :: nat
  interlaceMethod :: nat

text \<open>
  A chunk record. \<open>chunk_size\<close> is the field \<^verbatim>\<open>size\<close>, \<open>chunkInfo\<close> is present on
  \<^verbatim>\<open>IHDR\<close> chunks only.
\<close>

record chunk =
  fourCC :: string
  chunk_size :: nat
  data :: "8 word list"
  offset :: nat
  crc :: nat
  chunkInfo :: "chunk_info option"

text \<open>The getters of \<^verbatim>\<open>DataView\<close> (big-endian); \<open>None\<close> is their \<^verbatim>\<open>RangeError\<close>.\<close>

definition getUint8 :: "8 word list \<Rightarrow> nat \<Rightarrow> nat option" where
  "getUint8 dataView p = (if p + 1 \<le> length dataView then Some (unat (dataView ! p)) else None)"

definition getInt8 :: "8 word list \<Rightarrow> nat \<Rightarrow> int option" where
  "getInt8 dataView p = (if p + 1 \<le> length dataView then Some (sint (dataView ! p)) else None)"

definition getUint32 :: "8 word list \<Rightarrow> nat \<Rightarrow> nat option" where
  "getUint32 dataView p =
     (if p + 4 \<le> length dataView
      then Some (unat (dataView ! p) * 16777216 + unat (dataView ! (p + 1)) * 65536
                 + unat (dataView ! (p + 2)) * 256 + unat (dataView ! (p + 3)))
      else None)"

text \<open>
  \<^verbatim>\<open>utf8Decode.decode\<close> on the four bytes of a type tag. Each byte becomes the character
  of that code, which is what the decoder yields on ASCII; on other bytes the decoder
  yields text that equals none of the tags the source compares with, and so does this.
\<close>

definition decode :: "8 word list \<Rightarrow> string" where
  "decode bs = map (\<lambda>b. char_of (unat b)) bs"

text \<open>The object literal \<^verbatim>\<open>chunkInfo: {...}\<close>: seven reads at fixed offsets of the stream.\<close>

definition read_chunkInfo :: "8 word list \<Rightarrow> chunk_info option" where
  "read_chunkInfo dataView =
     (case getUint32 dataView 16 of None \<Rightarrow> None | Some w \<Rightarrow>
     (case getUint32 dataView 20 of None \<Rightarrow> None | Some h \<Rightarrow>
     (case getUint8 dataView 24 of None \<Rightarrow> None | Some bd \<Rightarrow>
     (case getUint8 dataView 25 of None \<Rightarrow> None | Some ct \<Rightarrow>
     (case getInt8 dataView 26 of None \<Rightarrow> None | Some cm \<Rightarrow>
     (case getUint8 dataView 27 of None \<Rightarrow> None | Some fm \<Rightarrow>
     (case getUint8 dataView 28 of None \<Rightarrow> None | Some im \<Rightarrow>
        Some \<lparr>widthPixels = w, heightPixels = h, bitDepth = bd, colourType = ct,
              compressionMethod = cm, filterMethod = fm, interlaceMethod = im\<rparr>)))))))"

text \<open>\<^verbatim>\<open>chunks[0].chunkInfo.colourType\<close>, with the two reads of \<^verbatim>\<open>undefined\<close> that throw.\<close>

definition first_colourType :: "chunk list \<Rightarrow> error + nat" where
  "first_colourType chunks =
     (case element chunks 0 of
        None \<Rightarrow> Inl TypeError
      | Some c \<Rightarrow> (case chunkInfo c of None \<Rightarrow> Inl TypeError | Some info \<Rightarrow> Inr (colourType info)))"

text \<open>
  The \<^verbatim>\<open>switch (fourCC)\<close>: what is pushed on \<^verbatim>\<open>chunks\<close>, and what is warned. The cases
  \<^verbatim>\<open>"tRNS"\<close> and \<^verbatim>\<open>default\<close> push the same record.
\<close>

definition store_chunk ::
  "8 word list \<Rightarrow> string \<Rightarrow> nat \<Rightarrow> 8 word list \<Rightarrow> nat \<Rightarrow> nat \<Rightarrow> chunk list \<Rightarrow> warning list
   \<Rightarrow> error + chunk list \<times> warning list" where
  "store_chunk dataView tag sz dat off c chunks warns =
     (let plain = \<lparr>fourCC = tag, chunk_size = sz, data = dat, offset = off, crc = c,
                   chunkInfo = None\<rparr>
      in if tag = ''IHDR'' then
           (case read_chunkInfo dataView of
              None \<Rightarrow> Inl RangeError
            | Some info \<Rightarrow> Inr (chunks @ [plain\<lparr>chunkInfo := Some info\<rparr>], warns))
         else if tag = ''PLTE'' then
           (if sz mod 3 \<noteq> 0 then Inl InvalidPalette
            else (case first_colourType chunks of
                    Inl e \<Rightarrow> Inl e
                  | Inr ct \<Rightarrow>
                      if ct = 3 \<and> sz = 0 then Inl MissingPalette
                      else if (ct = 0 \<or> ct = 4) \<and> sz \<noteq> 0
                        then Inr (chunks @ [plain], warns @ [PLTEIgnored ct])
                        else Inr (chunks @ [plain], warns)))
         else Inr (chunks @ [plain], warns))"

text \<open>
  The body of the \<^verbatim>\<open>while\<close> loop at cursor \<open>pos\<close>: the length, the type tag, the CRC
  behind the data, the data, and the \<^verbatim>\<open>switch\<close>. \<open>bytes\<close> is the buffer, read both through
  the \<^verbatim>\<open>DataView\<close> and as the array \<^verbatim>\<open>bytes\<close>. The result carries the new cursor.
\<close>

definition parse_chunk ::
  "8 word list \<Rightarrow> nat \<Rightarrow> chunk list \<Rightarrow> warning list
   \<Rightarrow> error + nat \<times> chunk list \<times> warning list" where
  "parse_chunk bytes pos chunks warns =
     (case getUint32 bytes pos of
        None \<Rightarrow> Inl RangeError
      | Some sz \<Rightarrow>
          (case getUint32 bytes (pos + 8 + sz) of
             None \<Rightarrow> Inl RangeError
           | Some c \<Rightarrow>
               (case store_chunk bytes
                       (decode (js_slice bytes (int pos + 4) (int pos + 8))) sz
                       (js_slice bytes (int (pos + 8)) (int (pos + 8 + sz))) (pos + 8) c
                       chunks warns of
                  Inl e \<Rightarrow> Inl e
                | Inr (chunks', warns') \<Rightarrow> Inr (pos + 8 + sz + 4, chunks', warns'))))"

lemma parse_chunk_advances:
  "parse_chunk bytes pos chunks warns = Inr (pos', chunks', warns') \<Longrightarrow> pos < pos'"
  by (auto simp: parse_chunk_def split: option.splits sum.splits)

text \<open>The \<^verbatim>\<open>while (pos < arrayBuffer.byteLength)\<close> loop.\<close>

function parse_loop ::
  "8 word list \<Rightarrow> nat \<Rightarrow> chunk list \<Rightarrow> warning list \<Rightarrow> error + chunk list \<times> warning list" where
  "parse_loop bytes pos chunks warns =
     (if pos < length bytes then
        (case parse_chunk bytes pos chunks warns of
           Inl e \<Rightarrow> Inl e
         | Inr (pos', chunks', warns') \<Rightarrow> parse_loop bytes pos' chunks' warns')
      else Inr (chunks, warns))"
  by pat_completeness auto
termination
proof (relation "measure (\<lambda>(bytes, pos, chunks, warns). length bytes - pos)")
  show "wf (measure (\<lambda>(bytes, pos, chunks, warns). length bytes - pos))"
    by simp
next
  fix bytes :: "8 word list" and pos chunks warns x2 pos' y chunks' warns'
  assume "pos < length bytes" "parse_chunk bytes pos chunks warns = Inr x2"
    "(pos', y) = x2" "(chunks', warns') = y"
  then have "pos < pos'"
    using parse_chunk_advances [of bytes pos chunks warns pos' chunks' warns'] by simp
  with \<open>pos < length bytes\<close>
  show "((bytes, pos', chunks', warns'), (bytes, pos, chunks, warns))
        \<in> measure (\<lambda>(bytes, pos, chunks, warns). length bytes - pos)"
    by simp
qed

text \<open>The method: the cursor starts behind the eight bytes of the signature.\<close>

definition parseChunks :: "8 word list \<Rightarrow> error + chunk list \<times> warning list" where
  "parseChunks arrayBuffer = parse_loop arrayBuffer 8 [] []"

subsection \<open>reverseFiltering\<close>

text \<open>
  An entry of a row of \<^verbatim>\<open>res\<close>: the filter byte (a number) or a pixel (an array of
  channel values).
\<close>

datatype cell = Num int | Pix "int list"

type_synonym row = "cell list"

record rf_state =
  res :: "row list"
  lineNum :: int
  pixelCount :: nat
  filterByte :: "int option"

text \<open>\<^verbatim>\<open>a % b\<close> on integers: the remainder has the sign of the dividend.\<close>

definition js_rem :: "int \<Rightarrow> int \<Rightarrow> int" where
  "js_rem a b = (if a < 0 then - ((- a) mod \<bar>b\<bar>) else a mod \<bar>b\<bar>)"

text \<open>
  \<^verbatim>\<open>p[idx]\<close> used as a number, for \<^verbatim>\<open>p\<close> read from \<^verbatim>\<open>res\<close>: a \<^verbatim>\<open>TypeError\<close> when
  \<^verbatim>\<open>p\<close> is \<^verbatim>\<open>undefined\<close>; \<^verbatim>\<open>undefined\<close>, hence \<^verbatim>\<open>NaN\<close>, when \<^verbatim>\<open>p\<close> is a number or
  too short an array.
\<close>

fun channel :: "cell option \<Rightarrow> nat \<Rightarrow> error + int" where
  "channel None idx = Inl TypeError"
| "channel (Some (Num n)) idx = Inl NotANumber"
| "channel (Some (Pix p)) idx = (if idx < length p then Inr (p ! idx) else Inl NotANumber)"

text \<open>\<^verbatim>\<open>curPixel.map((x, idx) => ...)\<close> for a callback that may throw; \<open>idx\<close> counts from \<open>k\<close>.\<close>

fun map_idx :: "(int \<Rightarrow> nat \<Rightarrow> error + int) \<Rightarrow> nat \<Rightarrow> int list \<Rightarrow> error + int list" where
  "map_idx f k [] = Inr []"
| "map_idx f k (x # xs) =
     (case f x k of
        Inl e \<Rightarrow> Inl e
      | Inr v \<Rightarrow> (case map_idx f (Suc k) xs of Inl e \<Rightarrow> Inl e | Inr vs \<Rightarrow> Inr (v # vs)))"

text \<open>The body of the Paeth callback after \<^verbatim>\<open>a\<close>, \<^verbatim>\<open>b\<close> and \<^verbatim>\<open>c\<close> are read.\<close>

definition paeth :: "int \<Rightarrow> int \<Rightarrow> int \<Rightarrow> int" where
  "paeth a b c =
     (let p = a + b - c;
          pa = \<bar>p - a\<bar>;
          pb = \<bar>p - b\<bar>;
          pc = \<bar>p - c\<bar>
      in if pa \<le> pb \<and> pa \<le> pc then a else if pb \<le> pc then b else c)"

text \<open>
  The \<^verbatim>\<open>switch (filterByte)\<close>: the pixel that is pushed on the current row. \<open>upLeft\<close> is
  \<^verbatim>\<open>res[lineNum - 1][pixelCount]\<close>, which only the Paeth case reads, and only behind its
  guard. The assignments to \<^verbatim>\<open>prevPixel\<close> in case 1 are never read again.
\<close>

definition unfilter ::
  "int option \<Rightarrow> nat \<Rightarrow> int \<Rightarrow> int list \<Rightarrow> cell option \<Rightarrow> cell option \<Rightarrow> cell option
   \<Rightarrow> error + int list" where
  "unfilter fb pcount lnum curPixel prevPixel prevLinePixel upLeft =
     (if fb = Some 0 then Inr curPixel
      else if fb = Some 1 then
        (if pcount > 0
         then map_idx (\<lambda>x idx. case channel prevPixel idx of Inl e \<Rightarrow> Inl e
                                | Inr a \<Rightarrow> Inr (js_rem (x + a) 256)) 0 curPixel
         else Inr curPixel)
      else if fb = Some 2 then
        map_idx (\<lambda>x idx. case channel prevLinePixel idx of Inl e \<Rightarrow> Inl e
                          | Inr b \<Rightarrow> Inr (js_rem (x + b) 256)) 0 curPixel
      else if fb = Some 3 then
        map_idx (\<lambda>x idx.
            (case (if pcount > 0 then channel prevPixel idx else Inr 0) of
               Inl e \<Rightarrow> Inl e
             | Inr left \<Rightarrow>
                 (case (if lnum > 0 then channel prevLinePixel idx else Inr 0) of
                    Inl e \<Rightarrow> Inl e
                  | Inr up \<Rightarrow> Inr (js_rem (x + (left + up) div 2) 256)))) 0 curPixel
      else if fb = Some 4 then
        map_idx (\<lambda>x idx.
            (case (if pcount > 0 then channel prevPixel idx else Inr 0) of
               Inl e \<Rightarrow> Inl e
             | Inr a \<Rightarrow>
                 (case (if lnum > 0 then channel prevLinePixel idx else Inr 0) of
                    Inl e \<Rightarrow> Inl e
                  | Inr b \<Rightarrow>
                      (case (if pcount > 0 \<and> lnum > 0 then channel upLeft idx else Inr 0) of
                         Inl e \<Rightarrow> Inl e
                       | Inr c \<Rightarrow> Inr (js_rem (x + paeth a b c) 256))))) 0 curPixel
      else Inl UnexpectedFilterByte)"

text \<open>
  \<^verbatim>\<open>filterByte = array[i++]; res[++lineNum] = [filterByte]; pixelCount = 0;\<close>
  (the increment of \<^verbatim>\<open>i\<close> is in the loop below).
\<close>

definition start_line :: "int \<Rightarrow> rf_state \<Rightarrow> rf_state" where
  "start_line fb s =
     s\<lparr>filterByte := Some fb,
       lineNum := lineNum s + 1,
       res := assign (res s) (lineNum s + 1) [Num fb],
       pixelCount := 0\<rparr>"

text \<open>
  The rest of the loop body, from \<^verbatim>\<open>const curPixel\<close> to \<^verbatim>\<open>pixelCount++\<close>, at index
  \<open>i\<close>. Reading \<^verbatim>\<open>res[lineNum]\<close> or \<^verbatim>\<open>res[lineNum - 1]\<close> as \<^verbatim>\<open>undefined\<close> and indexing
  it throws.
\<close>

definition process_pixel :: "int list \<Rightarrow> nat \<Rightarrow> rf_state \<Rightarrow> error + rf_state" where
  "process_pixel array i s =
     (let curPixel = js_slice array (int i) (int i + 4) in
      (case element (res s) (lineNum s) of
         None \<Rightarrow> Inl TypeError
       | Some curRow \<Rightarrow>
           (let prevPixel = element curRow (int (pixelCount s)) in
            (case (if lineNum s > 0
                   then (case element (res s) (lineNum s - 1) of
                           None \<Rightarrow> Inl TypeError
                         | Some prevRow \<Rightarrow> Inr (element prevRow (int (pixelCount s) + 1)))
                   else Inr (Some (Pix [0, 0, 0, 0]))) of
               Inl e \<Rightarrow> Inl e
             | Inr prevLinePixel \<Rightarrow>
                 (let upLeft = (case element (res s) (lineNum s - 1) of
                                  None \<Rightarrow> None
                                | Some prevRow \<Rightarrow> element prevRow (int (pixelCount s)))
                  in (case unfilter (filterByte s) (pixelCount s) (lineNum s) curPixel
                             prevPixel prevLinePixel upLeft of
                        Inl e \<Rightarrow> Inl e
                      | Inr px \<Rightarrow>
                          Inr (s\<lparr>res := (res s)[nat (lineNum s) := curRow @ [Pix px]],
                                 pixelCount := pixelCount s + 1\<rparr>)))))))"

text \<open>The \<^verbatim>\<open>for (let i = 0; i < array.length; i += 4)\<close> loop.\<close>

function reverseFiltering_loop ::
  "int list \<Rightarrow> nat \<Rightarrow> nat \<Rightarrow> rf_state \<Rightarrow> error + rf_state" where
  "reverseFiltering_loop array widthBytes i s =
     (if i < length array then
        (let newLine = (i mod widthBytes = 0);
             i1 = (if newLine then i + 1 else i);
             s1 = (if newLine then start_line (array ! i) s else s)
         in case process_pixel array i1 s1 of
              Inl e \<Rightarrow> Inl e
            | Inr s2 \<Rightarrow> reverseFiltering_loop array widthBytes (i1 + 4) s2)
      else Inr s)"
  by pat_completeness auto
termination
  by (relation "measure (\<lambda>(array, widthBytes, i, s). length array - i)") auto

text \<open>
  The method. \<open>wPixels\<close> is \<^verbatim>\<open>this.data[0].chunkInfo.widthPixels\<close>; \<^verbatim>\<open>filterByte\<close> is
  declared without a value.
\<close>

definition reverseFiltering :: "8 word list \<Rightarrow> nat \<Rightarrow> error + row list" where
  "reverseFiltering arrayBuffer wPixels =
     (let array = map uint arrayBuffer;
          widthBytes = wPixels * 4 + 1
      in case reverseFiltering_loop array widthBytes 0
                \<lparr>res = [], lineNum = - 1, pixelCount = 0, filterByte = None\<rparr> of
           Inl e \<Rightarrow> Inl e
         | Inr s \<Rightarrow> Inr (res s))"

subsection \<open>JavaScript numbers\<close>

text \<open>
  The numbers that \<^verbatim>\<open>subImage\<close> computes with are IEEE 754 doubles: a finite value,
  \<^verbatim>\<open>NaN\<close>, or one of the two infinities. \<open>Finite r\<close> is the double of value \<open>r\<close>. The
  two zeros are one value here: \<^verbatim>\<open>subImage\<close> only adds, compares, indexes and slices, and
  none of these tells \<^verbatim>\<open>-0\<close> from \<^verbatim>\<open>0\<close>.
\<close>

datatype jsnum = Finite real | NaN | PosInf | NegInf

text \<open>Rounding to the nearest integer, a tie to the even one.\<close>

definition round_half_even :: "real \<Rightarrow> int" where
  "round_half_even x =
     (let f = \<lfloor>x\<rfloor>; d = x - of_int f
      in if d < 1 / 2 then f else if 1 / 2 < d then f + 1 else if even f then f else f + 1)"

text \<open>
  The double nearest to a real number, a tie to the even significand: 53 significant bits,
  so the spacing around \<open>r\<close> is \<open>2\<close> to the power \<open>\<lfloor>log\<^sub>2 \<bar>r\<bar>\<rfloor> - 52\<close>, and \<open>2\<close> to the
  power \<open>-1074\<close> below the smallest normal exponent \<open>-1022\<close>; a result of magnitude
  \<open>2 ^ 1024\<close> is an infinity.
\<close>

definition fl :: "real \<Rightarrow> jsnum" where
  "fl r =
     (if r = 0 then Finite 0
      else let e = max \<lfloor>log 2 \<bar>r\<bar>\<rfloor> (- 1022);
               q = 2 powr of_int (e - 52);
               v = of_int (round_half_even (r / q)) * q
           in if 2 ^ 1024 \<le> \<bar>v\<bar> then (if 0 < r then PosInf else NegInf) else Finite v)"

text \<open>The operator \<^verbatim>\<open>+\<close> on two numbers: the exact sum, rounded.\<close>

fun js_add :: "jsnum \<Rightarrow> jsnum \<Rightarrow> jsnum" where
  "js_add (Finite x) (Finite y) = fl (x + y)"
| "js_add NaN b = NaN"
| "js_add a NaN = NaN"
| "js_add PosInf NegInf = NaN"
| "js_add NegInf PosInf = NaN"
| "js_add PosInf b = PosInf"
| "js_add a PosInf = PosInf"
| "js_add NegInf b = NegInf"
| "js_add a NegInf = NegInf"

text \<open>The operators \<^verbatim>\<open><\<close> and \<^verbatim>\<open><=\<close> on two numbers: false when one of them is \<^verbatim>\<open>NaN\<close>.\<close>

fun js_less :: "jsnum \<Rightarrow> jsnum \<Rightarrow> bool" where
  "js_less (Finite x) (Finite y) = (x < y)"
| "js_less NaN b = False"
| "js_less a NaN = False"
| "js_less NegInf NegInf = False"
| "js_less NegInf b = True"
| "js_less PosInf b = False"
| "js_less a PosInf = True"
| "js_less a NegInf = False"

fun js_less_eq :: "jsnum \<Rightarrow> jsnum \<Rightarrow> bool" where
  "js_less_eq (Finite x) (Finite y) = (x \<le> y)"
| "js_less_eq NaN b = False"
| "js_less_eq a NaN = False"
| "js_less_eq NegInf b = True"
| "js_less_eq a PosInf = True"
| "js_less_eq a b = False"

text \<open>
  \<^verbatim>\<open>ToIntegerOrInfinity\<close> on a finite number: truncation. \<^verbatim>\<open>slice\<close> applies it to its
  arguments and then clamps as \<open>relative_index\<close> does; \<^verbatim>\<open>NaN\<close> counts as 0,
  \<^verbatim>\<open>-Infinity\<close> is the start of the array and \<^verbatim>\<open>Infinity\<close> its end.
\<close>

definition to_integer :: "real \<Rightarrow> int" where
  "to_integer r = (if r < 0 then \<lceil>r\<rceil> else \<lfloor>r\<rfloor>)"

fun slice_index :: "jsnum \<Rightarrow> nat \<Rightarrow> nat" where
  "slice_index (Finite r) len = relative_index (to_integer r) len"
| "slice_index NaN len = relative_index 0 len"
| "slice_index PosInf len = len"
| "slice_index NegInf len = 0"

text \<open>\<^verbatim>\<open>xs.slice(start, end)\<close> on two numbers.\<close>

definition slice_numbers :: "'a list \<Rightarrow> jsnum \<Rightarrow> jsnum \<Rightarrow> 'a list" where
  "slice_numbers xs start end =
     (let k = slice_index start (length xs);
          final = slice_index end (length xs)
      in take (final - k) (drop k xs))"

text \<open>
  \<^verbatim>\<open>xs[i]\<close> for a number \<^verbatim>\<open>i\<close>: only an integer from 0 to \<open>2 ^ 32 - 2\<close> is an array
  index (an array has fewer than \<open>2 ^ 32\<close> elements); every other number names a property
  that an array does not have, and the read yields \<^verbatim>\<open>undefined\<close>.
\<close>

fun element_at :: "'a list \<Rightarrow> jsnum \<Rightarrow> 'a option" where
  "element_at xs (Finite i) =
     (if i = of_int \<lfloor>i\<rfloor> \<and> 0 \<le> i \<and> i < 4294967295 then element xs \<lfloor>i\<rfloor> else None)"
| "element_at xs i = None"

text \<open>
  Rounding leaves a number with at most 53 significant bits as it is; in particular every
  integer below \<open>2 ^ 53\<close> in magnitude. The loop of \<^verbatim>\<open>subImage\<close> terminates by this: the
  counter that has just named a row is such an integer, and \<^verbatim>\<open>i++\<close> is exact on it.
\<close>

lemma round_half_even_of_int: "round_half_even (of_int z) = z"
  by (simp add: round_half_even_def)

lemma fl_exact:
  assumes "\<bar>m\<bar> < 2 ^ 53" and "n \<le> 1074"
  shows "fl (of_int m / 2 ^ n) = Finite (of_int m / 2 ^ n)"
proof (cases "m = 0")
  case True
  then show ?thesis by (simp add: fl_def)
next
  case False
  define r :: real where "r = of_int m / 2 ^ n"
  have r0: "r \<noteq> 0" using False by (simp add: r_def)
  have absr: "\<bar>r\<bar> = of_int \<bar>m\<bar> / 2 ^ n" by (simp add: r_def abs_divide)
  have "of_int \<bar>m\<bar> < (2 :: real) ^ 53"
    using assms(1) by (metis of_int_less_numeral_power_cancel_iff)
  then have lt: "\<bar>r\<bar> < 2 ^ 53 / 2 ^ n"
    unfolding absr by (simp add: divide_strict_right_mono)
  have "(2 :: real) ^ 53 / 2 ^ n = 2 powr (53 - real n)"
    by (simp add: powr_diff powr_realpow)
  with lt have "\<bar>r\<bar> < 2 powr of_int (53 - int n)" by simp
  then have "log 2 \<bar>r\<bar> < of_int (53 - int n)"
    using r0 by (subst log_less_iff) auto
  then have "\<lfloor>log 2 \<bar>r\<bar>\<rfloor> < 53 - int n"
    by (simp only: floor_less_iff)
  then have fl_le: "\<lfloor>log 2 \<bar>r\<bar>\<rfloor> \<le> 52 - int n"
    by simp
  define e where "e = max \<lfloor>log 2 \<bar>r\<bar>\<rfloor> (- 1022)"
  have e: "e - 52 \<le> - int n" using fl_le assms(2) by (simp add: e_def)
  define d where "d = nat (- int n - (e - 52))"
  have d: "int d = - int n - (e - 52)" using e by (simp add: d_def)
  define q :: real where "q = 2 powr of_int (e - 52)"
  have q0: "0 < q" by (simp add: q_def)
  have "2 ^ d * q = 2 powr (of_int (int d) + of_int (e - 52))"
    unfolding q_def by (simp add: powr_add powr_realpow)
  also have "of_int (int d) + of_int (e - 52) = (- real n)" using d by simp
  also have "2 powr (- real n) = 1 / 2 ^ n" by (simp add: powr_minus powr_realpow divide_simps)
  finally have dq: "2 ^ d * q = 1 / 2 ^ n" .
  have "r = of_int m * (2 ^ d * q)" by (simp add: r_def dq)
  then have rq: "r / q = of_int (m * 2 ^ d)" using q0 by simp
  have v: "of_int (round_half_even (r / q)) * q = r"
    unfolding rq round_half_even_of_int using \<open>r = of_int m * (2 ^ d * q)\<close> by simp
  have "(2 :: real) ^ 53 / 2 ^ n \<le> 2 ^ 53 / 1"
    by (intro frac_le) simp_all
  with lt have "\<bar>r\<bar> < 2 ^ 53" by simp
  moreover have "(2 :: real) ^ 53 \<le> 2 ^ 1024"
    by (intro power_increasing) simp_all
  ultimately have small: "\<not> 2 ^ 1024 \<le> \<bar>r\<bar>"
    by linarith
  show ?thesis
    using r0 v small unfolding fl_def r_def [symmetric] Let_def e_def [symmetric] q_def [symmetric]
    by simp
qed

lemma fl_int: "\<bar>k\<bar> < 2 ^ 53 \<Longrightarrow> fl (of_int k) = Finite (of_int k)"
  using fl_exact [of k 0] by simp

lemma element_at_Some:
  assumes "element_at xs i = Some x"
  shows "\<exists>k. i = Finite (of_int k) \<and> 0 \<le> k \<and> k < 4294967295 \<and> element xs k = Some x"
proof (cases i)
  case (Finite r)
  with assms have r: "r = of_int \<lfloor>r\<rfloor>" "0 \<le> r" "r < 4294967295" "element xs \<lfloor>r\<rfloor> = Some x"
    by (auto split: if_splits)
  from r(1,3) have "\<lfloor>r\<rfloor> < 4294967295"
    by linarith
  moreover from r(2) have "0 \<le> \<lfloor>r\<rfloor>" by simp
  ultimately show ?thesis using Finite r(1,4) by blast
qed (use assms in simp_all)

lemma increment:
  "0 \<le> k \<Longrightarrow> k < 4294967295 \<Longrightarrow> js_add (Finite (of_int k)) (Finite 1) = Finite (of_int (k + 1))"
  using fl_int [of "k + 1"] by simp

subsection \<open>subImage\<close>

text \<open>
  The arguments are plain data: reading a property has no effect and yields the same value
  every time. A property as \<^verbatim>\<open>typeof\<close> sees it: a number, or anything else (a missing
  property included, whose value is \<^verbatim>\<open>undefined\<close>).
\<close>

datatype jsval = Number jsnum | NotNumber

text \<open>
  The three arguments.
  \<^item> \<^verbatim>\<open>imageDataBuffer\<close>: an array of rows, or a value that \<^verbatim>\<open>Array.isArray\<close> rejects.
  \<^item> \<^verbatim>\<open>tileSize\<close>: \<open>NoTile\<close> is a value whose \<^verbatim>\<open>typeof\<close> is not \<^verbatim>\<open>'object'\<close>
    (\<^verbatim>\<open>undefined\<close>, a number, a string, a function); \<open>NullTile\<close> is \<^verbatim>\<open>null\<close>, whose
    \<^verbatim>\<open>typeof\<close> is \<^verbatim>\<open>'object'\<close>; \<open>Tile x y\<close> is an object with its properties \<^verbatim>\<open>x\<close> and
    \<^verbatim>\<open>y\<close>.
  \<^item> \<^verbatim>\<open>margins\<close>: \<open>OmittedMargins\<close> is the argument left out or \<^verbatim>\<open>undefined\<close>, for which
    the default \<^verbatim>\<open>{ xMargin: 0, yMargin: 0 }\<close> stands in; \<open>NoMargins\<close>, \<open>NullMargins\<close> and
    \<open>Margins xMargin yMargin\<close> are as for the tile size.
\<close>

datatype grid_arg = NotArray | ArrayOf "row list"

datatype tile_arg = NoTile | NullTile | Tile jsval jsval

datatype margins_arg = OmittedMargins | NoMargins | NullMargins | Margins jsval jsval

text \<open>An entry of the result: the leading scalar \<^verbatim>\<open>0\<close>, or the slice of a row.\<close>

datatype sub_entry = Scalar int | Slice "cell list"

text \<open>
  The \<^verbatim>\<open>for (let i = yMargin; i < tileHeight + yMargin; i++)\<close> loop inside \<^verbatim>\<open>try\<close>;
  \<open>bound\<close> is \<^verbatim>\<open>tileHeight + yMargin\<close>. \<^verbatim>\<open>imageDataBuffer[i].slice\<close> throws when the row
  is \<^verbatim>\<open>undefined\<close>.
\<close>

function subImage_loop ::
  "row list \<Rightarrow> jsnum \<Rightarrow> jsnum \<Rightarrow> jsnum \<Rightarrow> jsnum \<Rightarrow> sub_entry list \<Rightarrow> error + sub_entry list" where
  "subImage_loop imageDataBuffer xMargin tileWidth bound i subImg =
     (if js_less i bound then
        (case element_at imageDataBuffer i of
           None \<Rightarrow> Inl TypeError
         | Some r \<Rightarrow>
             subImage_loop imageDataBuffer xMargin tileWidth bound (js_add i (Finite 1))
               (subImg @ [Slice (slice_numbers r (js_add xMargin (Finite 1))
                                   (js_add (js_add xMargin (Finite 1)) tileWidth))]))
      else Inr subImg)"
  by pat_completeness auto
termination
proof (relation "measure (\<lambda>(imageDataBuffer, xMargin, tileWidth, bound, i, subImg).
                   case i of Finite r \<Rightarrow> nat (4294967296 - \<lfloor>r\<rfloor>) | _ \<Rightarrow> 0)")
  show "wf (measure (\<lambda>(imageDataBuffer, xMargin, tileWidth, bound, i, subImg).
                   case i of Finite r \<Rightarrow> nat (4294967296 - \<lfloor>r\<rfloor>) | _ \<Rightarrow> 0))"
    by simp
next
  fix imageDataBuffer :: "row list" and xMargin tileWidth bound i :: jsnum
    and subImg :: "sub_entry list" and r :: row
  assume "js_less i bound" "element_at imageDataBuffer i = Some r"
  from element_at_Some [OF this(2)] obtain k where
    k: "i = Finite (of_int k)" "0 \<le> k" "k < 4294967295"
    by blast
  then show "((imageDataBuffer, xMargin, tileWidth, bound, js_add i (Finite 1),
          subImg @ [Slice (slice_numbers r (js_add xMargin (Finite 1))
                             (js_add (js_add xMargin (Finite 1)) tileWidth))]),
         (imageDataBuffer, xMargin, tileWidth, bound, i, subImg))
        \<in> measure (\<lambda>(imageDataBuffer, xMargin, tileWidth, bound, i, subImg).
                   case i of Finite r \<Rightarrow> nat (4294967296 - \<lfloor>r\<rfloor>) | _ \<Rightarrow> 0)"
    using increment [of k] by simp
qed

text \<open>
  The test of \<^verbatim>\<open>tileSize\<close> (line 323). On \<^verbatim>\<open>null\<close> the first disjunct is false and
  \<^verbatim>\<open>'x' in tileSize\<close> throws a \<open>TypeError\<close>; a property that is missing or not of type
  \<^verbatim>\<open>'number'\<close>, or a number \<^verbatim>\<open><= 0\<close>, gives \<open>InvalidTileSize\<close>.
\<close>

fun tile_numbers :: "tile_arg \<Rightarrow> error + jsnum \<times> jsnum" where
  "tile_numbers NoTile = Inl InvalidTileSize"
| "tile_numbers NullTile = Inl TypeError"
| "tile_numbers (Tile (Number x) (Number y)) =
     (if js_less_eq x (Finite 0) \<or> js_less_eq y (Finite 0) then Inl InvalidTileSize
      else Inr (x, y))"
| "tile_numbers (Tile x y) = Inl InvalidTileSize"

text \<open>
  The test of \<^verbatim>\<open>margins\<close> (line 326). On \<^verbatim>\<open>null\<close> the first disjunct is false and the
  read of \<^verbatim>\<open>margins.xMargin\<close> throws a \<open>TypeError\<close>.
\<close>

fun margin_numbers :: "margins_arg \<Rightarrow> error + jsnum \<times> jsnum" where
  "margin_numbers OmittedMargins = Inr (Finite 0, Finite 0)"
| "margin_numbers NoMargins = Inl InvalidMargins"
| "margin_numbers NullMargins = Inl TypeError"
| "margin_numbers (Margins (Number xMargin) (Number yMargin)) = Inr (xMargin, yMargin)"
| "margin_numbers (Margins xMargin yMargin) = Inl InvalidMargins"

text \<open>
  The method: the three validations in the order of the source, then the loop, whose
  exceptions the \<^verbatim>\<open>catch\<close> wraps.
\<close>

definition subImage :: "grid_arg \<Rightarrow> tile_arg \<Rightarrow> margins_arg \<Rightarrow> error + sub_entry list" where
  "subImage imageDataBuffer tileSize margins =
     (case imageDataBuffer of
        NotArray \<Rightarrow> Inl IncorrectGridType
      | ArrayOf rows \<Rightarrow>
          (case tile_numbers tileSize of
             Inl e \<Rightarrow> Inl e
           | Inr (tileWidth, tileHeight) \<Rightarrow>
               (case margin_numbers margins of
                  Inl e \<Rightarrow> Inl e
                | Inr (xMargin, yMargin) \<Rightarrow>
                    (case subImage_loop rows xMargin tileWidth (js_add tileHeight yMargin)
                            yMargin [Scalar 0] of
                       Inl e \<Rightarrow> Inl (SubImageExtractionError e)
                     | Inr sub \<Rightarrow> Inr sub))))"

subsection \<open>Notions of the specification\<close>


text \<open>
  The chunks a stream holds behind position \<open>pos\<close>, by its length fields alone: the type
  tag and the declared length of every chunk whose data and CRC lie inside the stream, up to
  the end of the stream or to the first chunk that does not fit.
\<close>

function frames :: "8 word list \<Rightarrow> nat \<Rightarrow> (string \<times> nat) list" where
  "frames bytes pos =
     (if pos < length bytes then
        (case getUint32 bytes pos of
           None \<Rightarrow> []
         | Some sz \<Rightarrow>
             (case getUint32 bytes (pos + 8 + sz) of
                None \<Rightarrow> []
              | Some c \<Rightarrow>
                  (decode (js_slice bytes (int pos + 4) (int pos + 8)), sz)
                  # frames bytes (pos + 8 + sz + 4)))
      else [])"
  by pat_completeness auto
termination
  by (relation "measure (\<lambda>(bytes, pos). length bytes - pos)") auto


text \<open>
  The reconstruction of one channel as the specification words it (section 4.2): \<open>f\<close> is
  the filter type of the row, \<open>x\<close> the raw value, \<open>a\<close>, \<open>b\<close> and \<open>c\<close> the channels of the
  pixels to the left, above, and above and to the left, which are 0 at the first column and
  the first row. The Paeth rule is the one of the source.
\<close>

definition reconstruct :: "int \<Rightarrow> int \<Rightarrow> int \<Rightarrow> int \<Rightarrow> int \<Rightarrow> int" where
  "reconstruct f x a b c =
     (if f = 0 then x
      else if f = 1 then (x + a) mod 256
      else if f = 2 then (x + b) mod 256
      else if f = 3 then (x + (a + b) div 2) mod 256
      else (x + paeth a b c) mod 256)"

text \<open>
  The channel \<open>k\<close> of the pixel in row \<open>r\<close> and column \<open>j\<close> of a grid, read as a
  neighbour: 0 before the first row and before the first column. Column \<open>j\<close> is entry
  \<open>j + 1\<close> of its row, behind the filter byte.
\<close>

definition neighbour :: "row list \<Rightarrow> int \<Rightarrow> int \<Rightarrow> nat \<Rightarrow> int option" where
  "neighbour g r j k =
     (if r < 0 \<or> j < 0 then Some 0
      else (case element g r of
              None \<Rightarrow> None
            | Some cells \<Rightarrow>
                (case element cells (j + 1) of
                   Some (Pix p) \<Rightarrow> (if k < length p then Some (p ! k) else None)
                 | _ \<Rightarrow> None)))"

text \<open>
  The bytes of a grid, row by row: the filter byte of a row, then the channels of its
  pixels.
\<close>

fun cell_bytes :: "cell \<Rightarrow> int list" where
  "cell_bytes (Num n) = [n]"
| "cell_bytes (Pix p) = p"

definition grid_bytes :: "row list \<Rightarrow> int list" where
  "grid_bytes g = concat (map (\<lambda>cells. concat (map cell_bytes cells)) g)"

subsection \<open>The invariant of the defiltering loop\<close>

text \<open>
  For an image of \<open>w\<close> pixels per row, the pixel in row \<open>r\<close> and column \<open>j\<close> starts at index
  \<open>pix_start w r j\<close> of the payload.
\<close>

definition pix_start :: "nat \<Rightarrow> nat \<Rightarrow> nat \<Rightarrow> nat" where
  "pix_start w r j = r * (4 * w + 1) + 1 + 4 * j"

text \<open>
  What the \<^verbatim>\<open>switch\<close> of the source computes for the pixel in row \<open>r\<close> and column \<open>j\<close> when
  \<^verbatim>\<open>res\<close> is \<open>g\<close>: the arguments are the ones \<open>process_pixel\<close> hands to \<open>unfilter\<close>.
\<close>

definition pixel_of :: "int list \<Rightarrow> nat \<Rightarrow> row list \<Rightarrow> nat \<Rightarrow> nat \<Rightarrow> error + int list" where
  "pixel_of array w g r j =
     unfilter (Some (array ! (r * (4 * w + 1)))) j (int r)
       (take 4 (drop (pix_start w r j) array))
       (element (g ! r) (int j))
       (if r > 0 then element (g ! (r - 1)) (int j + 1) else Some (Pix [0, 0, 0, 0]))
       (if r > 0 then element (g ! (r - 1)) (int j) else None)"

text \<open>
  A cell of the grid is in order when it holds the pixel that the \<^verbatim>\<open>switch\<close> computes from
  its neighbours in the grid, with all the bytes the payload has for it (four, unless the
  payload ends) and channels between 0 and 255. A row is in order up to \<open>n\<close> pixels, a grid
  up to row \<open>r\<close> and \<open>j\<close> pixels of that row.
\<close>

definition cell_ok :: "int list \<Rightarrow> nat \<Rightarrow> row list \<Rightarrow> nat \<Rightarrow> nat \<Rightarrow> bool" where
  "cell_ok array w g r j =
     (\<exists>p. g ! r ! (j + 1) = Pix p \<and> pixel_of array w g r j = Inr p
          \<and> length p = min 4 (length array - pix_start w r j)
          \<and> (\<forall>v \<in> set p. 0 \<le> v \<and> v < 256))"

definition row_ok :: "int list \<Rightarrow> nat \<Rightarrow> row list \<Rightarrow> nat \<Rightarrow> nat \<Rightarrow> bool" where
  "row_ok array w g r n =
     (length (g ! r) = n + 1 \<and> g ! r ! 0 = Num (array ! (r * (4 * w + 1)))
      \<and> (\<forall>j < n. cell_ok array w g r j))"

definition grid_ok :: "int list \<Rightarrow> nat \<Rightarrow> row list \<Rightarrow> nat \<Rightarrow> nat \<Rightarrow> bool" where
  "grid_ok array w g r j =
     (length g = r + 1 \<and> (\<forall>r' < r. row_ok array w g r' w) \<and> row_ok array w g r j)"

text \<open>
  The state of the loop while row \<open>r\<close> holds \<open>j\<close> pixels, and the state at the head of the
  loop at index \<open>i\<close>: the initial one, or one with at least one pixel in its last row.
\<close>

definition state_ok :: "int list \<Rightarrow> nat \<Rightarrow> nat \<Rightarrow> nat \<Rightarrow> rf_state \<Rightarrow> bool" where
  "state_ok array w r j s =
     (lineNum s = int r \<and> pixelCount s = j
      \<and> filterByte s = Some (array ! (r * (4 * w + 1)))
      \<and> grid_ok array w (res s) r j
      \<and> r * (4 * w + 1) < length array
      \<and> (\<forall>r' < r. array ! (r' * (4 * w + 1)) \<in> {0, 1, 2, 3, 4})
      \<and> (0 < j \<longrightarrow> array ! (r * (4 * w + 1)) \<in> {0, 1, 2, 3, 4}))"

definition head_ok :: "int list \<Rightarrow> nat \<Rightarrow> nat \<Rightarrow> rf_state \<Rightarrow> bool" where
  "head_ok array w i s =
     ((i = 0 \<and> s = \<lparr>res = [], lineNum = - 1, pixelCount = 0, filterByte = None\<rparr>)
      \<or> (\<exists>r j. 1 \<le> j \<and> j \<le> w \<and> i = pix_start w r j \<and> i \<le> length array + 4
               \<and> state_ok array w r j s))"

section \<open>Properties\<close>

text \<open>
  The three loops are unfolded one iteration at a time; their defining equations are not
  simplification rules.
\<close>

declare parse_loop.simps [simp del]
declare reverseFiltering_loop.simps [simp del]
declare subImage_loop.simps [simp del]
declare frames.simps [simp del]

subsection \<open>JavaScript arrays\<close>

lemma element_nat: "element xs (int k) = (if k < length xs then Some (xs ! k) else None)"
  by (simp add: element_def)

lemma element_nat_Suc: "element xs (int k + 1) = (if Suc k < length xs then Some (xs ! Suc k) else None)"
  using element_nat [of xs "Suc k"] by (simp add: add.commute)

lemma element_negative: "k < 0 \<Longrightarrow> element xs k = None"
  by (simp add: element_def)

text \<open>A slice that starts at a non-negative index is cut short where the array ends.\<close>

lemma js_slice_nonneg:
  assumes "0 \<le> a" "0 \<le> n"
  shows "js_slice xs a (a + n) = take (nat n) (drop (nat a) xs)"
proof (cases "nat a \<le> length xs")
  case True
  with assms have "min (nat (a + n)) (length xs) - nat a = min (nat n) (length xs - nat a)"
    by (auto simp: nat_add_distrib min_def)
  moreover have "take (min (nat n) (length xs - nat a)) (drop (nat a) xs)
      = take (nat n) (drop (nat a) xs)"
    by (simp add: min_def)
  ultimately show ?thesis
    using assms True by (simp add: js_slice_def relative_index_def Let_def)
next
  case False
  with assms show ?thesis
    by (simp add: js_slice_def relative_index_def)
qed

subsection \<open>parseChunks\<close>

text \<open>One iteration of the loop at a time.\<close>

lemma parse_loop_end: "\<not> pos < length bytes \<Longrightarrow> parse_loop bytes pos chunks warns = Inr (chunks, warns)"
  by (subst parse_loop.simps) simp

lemma parse_loop_fail:
  "pos < length bytes \<Longrightarrow> parse_chunk bytes pos chunks warns = Inl e
   \<Longrightarrow> parse_loop bytes pos chunks warns = Inl e"
  by (subst parse_loop.simps) simp

lemma parse_loop_step:
  "pos < length bytes \<Longrightarrow> parse_chunk bytes pos chunks warns = Inr (pos', chunks', warns')
   \<Longrightarrow> parse_loop bytes pos chunks warns = parse_loop bytes pos' chunks' warns'"
  by (subst parse_loop.simps) simp

lemma getUint32_Some_length: "getUint32 bytes p = Some v \<Longrightarrow> p + 4 \<le> length bytes"
  by (simp add: getUint32_def split: if_splits)

lemma read_chunkInfo_Some: "29 \<le> length bytes \<Longrightarrow> \<exists>info. read_chunkInfo bytes = Some info"
  by (simp add: read_chunkInfo_def getUint32_def getUint8_def getInt8_def)

lemma first_colourType_Some:
  "chunks \<noteq> [] \<Longrightarrow> chunkInfo (hd chunks) = Some info
   \<Longrightarrow> first_colourType chunks = Inr (colourType info)"
  by (cases chunks) (simp_all add: first_colourType_def element_def)

lemma first_colourType_None:
  "chunks = [] \<or> chunkInfo (hd chunks) = None \<Longrightarrow> first_colourType chunks = Inl TypeError"
  by (cases chunks) (auto simp: first_colourType_def element_def)

text \<open>What the \<^verbatim>\<open>switch\<close> can do with a chunk that is not a palette, and what it can throw.\<close>

lemma store_chunk_other:
  assumes "tag \<noteq> ''PLTE''"
  shows "store_chunk bytes tag sz dat off c chunks warns = Inl RangeError
       \<or> (\<exists>ch. store_chunk bytes tag sz dat off c chunks warns = Inr (chunks @ [ch], warns)
              \<and> (chunkInfo ch \<noteq> None \<longrightarrow> tag = ''IHDR''))"
  using assms by (auto simp: store_chunk_def Let_def split: option.splits)








text \<open>A chunk listed by \<open>frames\<close> lies inside the stream.\<close>

lemma frames_Cons:
  assumes "frames bytes pos = (tag, sz) # fs"
  shows "pos < length bytes \<and> getUint32 bytes pos = Some sz
       \<and> (\<exists>c. getUint32 bytes (pos + 8 + sz) = Some c)
       \<and> decode (js_slice bytes (int pos + 4) (int pos + 8)) = tag
       \<and> frames bytes (pos + 8 + sz + 4) = fs"
  using assms by (subst (asm) frames.simps) (auto split: if_splits option.splits)


text \<open>
  The iteration on a \<^verbatim>\<open>PLTE\<close> chunk that lies inside the stream, when \<^verbatim>\<open>chunks[0]\<close>
  carries header information.
\<close>

lemma PLTE_iteration:
  assumes "getUint32 bytes pos = Some sz" and "getUint32 bytes (pos + 8 + sz) = Some c"
    and "decode (js_slice bytes (int pos + 4) (int pos + 8)) = ''PLTE''"
    and "chunks \<noteq> []" and "chunkInfo (hd chunks) = Some info"
  shows "parse_chunk bytes pos chunks warns =
      (if sz mod 3 \<noteq> 0 then Inl InvalidPalette
       else if colourType info = 3 \<and> sz = 0 then Inl MissingPalette
       else Inr (pos + 8 + sz + 4,
                 chunks @ [\<lparr>fourCC = ''PLTE'', chunk_size = sz,
                             data = js_slice bytes (int (pos + 8)) (int (pos + 8 + sz)),
                             offset = pos + 8, crc = c, chunkInfo = None\<rparr>],
                 if (colourType info = 0 \<or> colourType info = 4) \<and> sz \<noteq> 0
                 then warns @ [PLTEIgnored (colourType info)] else warns))"
proof -
  have ct: "first_colourType chunks = Inr (colourType info)"
    using assms(4,5) by (rule first_colourType_Some)
  show ?thesis
    using assms(1-3) ct by (auto simp: parse_chunk_def store_chunk_def Let_def)
qed

text \<open>
  In a stream of 29 bytes or more the seven reads of the header succeed, so a chunk that
  is not a palette is appended, whatever its tag.
\<close>

lemma store_chunk_not_PLTE:
  assumes "tag \<noteq> ''PLTE''" and "29 \<le> length bytes"
  shows "\<exists>ch. store_chunk bytes tag sz dat off c chunks warns = Inr (chunks @ [ch], warns)
              \<and> fourCC ch = tag"
proof -
  from read_chunkInfo_Some [OF assms(2)] obtain info where "read_chunkInfo bytes = Some info" ..
  with assms(1) show ?thesis by (simp add: store_chunk_def Let_def)
qed

text \<open>
  The way to a \<^verbatim>\<open>PLTE\<close> chunk. From a cursor where \<^verbatim>\<open>chunks[0]\<close> carries the header,
  the loop runs over the chunks \<open>pre\<close> in front of that \<^verbatim>\<open>PLTE\<close> chunk, provided the
  palettes among them pass the two tests: it appends one chunk for each, records the
  warnings of the palettes, and arrives at the \<^verbatim>\<open>PLTE\<close> chunk with \<^verbatim>\<open>chunks[0]\<close>
  unchanged.
\<close>

lemma parse_to_PLTE:
  assumes "frames bytes pos = pre @ (''PLTE'', sz) # rest"
    and "\<forall>f \<in> set pre. fst f = ''PLTE'' \<longrightarrow>
           snd f mod 3 = 0 \<and> \<not> (colourType info = 3 \<and> snd f = 0)"
    and "29 \<le> length bytes"
    and "chunks \<noteq> []" and "chunkInfo (hd chunks) = Some info"
  shows "\<exists>cs. parse_loop bytes pos chunks warns =
                parse_loop bytes (pos + sum_list (map (\<lambda>f. snd f + 12) pre)) (chunks @ cs)
                  (warns @ concat (map (\<lambda>f. if fst f = ''PLTE''
                                                 \<and> (colourType info = 0 \<or> colourType info = 4)
                                                 \<and> snd f \<noteq> 0
                                              then [PLTEIgnored (colourType info)] else []) pre))
              \<and> map fourCC cs = map fst pre
              \<and> frames bytes (pos + sum_list (map (\<lambda>f. snd f + 12) pre)) = (''PLTE'', sz) # rest"
  using assms(1,2,4,5)
proof (induction pre arbitrary: pos chunks warns)
  case Nil
  then show ?case by simp
next
  case (Cons f pre)
  let ?w = "\<lambda>f. if fst f = ''PLTE'' \<and> (colourType info = 0 \<or> colourType info = 4) \<and> snd f \<noteq> 0
                then [PLTEIgnored (colourType info)] else []"
  obtain tag n where f: "f = (tag, n)" by (cases f)
  from Cons.prems(1) f have fr: "frames bytes pos = (tag, n) # (pre @ (''PLTE'', sz) # rest)"
    by simp
  from frames_Cons [OF fr] obtain c where lt: "pos < length bytes"
    and s: "getUint32 bytes pos = Some n" and c: "getUint32 bytes (pos + 8 + n) = Some c"
    and tag: "decode (js_slice bytes (int pos + 4) (int pos + 8)) = tag"
    and next_fr: "frames bytes (pos + 8 + n + 4) = pre @ (''PLTE'', sz) # rest"
    by blast
  from Cons.prems(2) have pass': "\<forall>f \<in> set pre. fst f = ''PLTE'' \<longrightarrow>
      snd f mod 3 = 0 \<and> \<not> (colourType info = 3 \<and> snd f = 0)"
    by simp
  have "\<exists>ch. parse_chunk bytes pos chunks warns = Inr (pos + 8 + n + 4, chunks @ [ch], warns @ ?w f)
            \<and> fourCC ch = tag"
  proof (cases "tag = ''PLTE''")
    case True
    with Cons.prems(2) f have "n mod 3 = 0" "\<not> (colourType info = 3 \<and> n = 0)"
      by auto
    with PLTE_iteration [OF s c _ Cons.prems(3,4), of warns] tag True f show ?thesis
      by auto
  next
    case False
    from store_chunk_not_PLTE [OF False assms(3)] obtain ch where
      "store_chunk bytes tag n (js_slice bytes (int (pos + 8)) (int (pos + 8 + n)))
           (pos + 8) c chunks warns = Inr (chunks @ [ch], warns)"
      and "fourCC ch = tag"
      by blast
    with s c tag False f show ?thesis
      by (simp add: parse_chunk_def)
  qed
  then obtain ch where
    pc: "parse_chunk bytes pos chunks warns = Inr (pos + 8 + n + 4, chunks @ [ch], warns @ ?w f)"
    and ch: "fourCC ch = tag"
    by blast
  have step: "parse_loop bytes pos chunks warns
      = parse_loop bytes (pos + 8 + n + 4) (chunks @ [ch]) (warns @ ?w f)"
    using lt pc by (simp add: parse_loop_step)
  have p: "pos + sum_list (map (\<lambda>f. snd f + 12) (f # pre))
      = pos + 8 + n + 4 + sum_list (map (\<lambda>f. snd f + 12) pre)"
    using f by simp
  have first: "chunks @ [ch] \<noteq> []" "chunkInfo (hd (chunks @ [ch])) = Some info"
    using Cons.prems(3,4) by simp_all
  from Cons.IH [OF next_fr pass' first, of "warns @ ?w f"] obtain cs where
    "parse_loop bytes (pos + 8 + n + 4) (chunks @ [ch]) (warns @ ?w f) =
       parse_loop bytes (pos + 8 + n + 4 + sum_list (map (\<lambda>f. snd f + 12) pre))
         ((chunks @ [ch]) @ cs) ((warns @ ?w f) @ concat (map ?w pre))"
    and "map fourCC cs = map fst pre"
    and "frames bytes (pos + 8 + n + 4 + sum_list (map (\<lambda>f. snd f + 12) pre))
         = (''PLTE'', sz) # rest"
    by blast
  then have "parse_loop bytes pos chunks warns =
                parse_loop bytes (pos + sum_list (map (\<lambda>f. snd f + 12) (f # pre)))
                  (chunks @ (ch # cs)) (warns @ concat (map ?w (f # pre)))
              \<and> map fourCC (ch # cs) = map fst (f # pre)
              \<and> frames bytes (pos + sum_list (map (\<lambda>f. snd f + 12) (f # pre)))
                  = (''PLTE'', sz) # rest"
    unfolding p step using ch f by simp
  then show ?case by blast
qed

text \<open>The colour type of the header is the byte at offset 25 of the stream.\<close>

lemma read_chunkInfo_colourType:
  "read_chunkInfo bytes = Some info \<Longrightarrow> colourType info = unat (bytes ! 25)"
  by (auto simp: read_chunkInfo_def getUint8_def split: option.splits if_splits)

text \<open>
  Claim C6: take a stream whose first chunk is an \<^verbatim>\<open>IHDR\<close> chunk, and a later \<^verbatim>\<open>PLTE\<close>
  chunk of declared length \<open>sz\<close> that the parse reaches: that chunk and the chunks \<open>pre\<close>
  between the two lie inside the stream, and the palettes among \<open>pre\<close> pass the two tests
  below. Then the parse
  arrives at that chunk with the header of the stream in \<^verbatim>\<open>chunks[0]\<close>, and the colour type
  it tests is the one of that header, the byte at offset 25 of the stream. The iteration on
  the chunk, and with it the parse, fails with \<open>InvalidPalette\<close> exactly when \<open>sz\<close> is not a
  multiple of 3; otherwise it fails with \<open>MissingPalette\<close> exactly when the colour type is 3
  and \<open>sz = 0\<close>; otherwise it throws nothing, appends the chunk, and the parse goes on behind
  it, with one more warning when the colour type is 0 or 4 and \<open>sz \<noteq> 0\<close>, and with the
  warnings it had otherwise.
\<close>

theorem PLTE_after_header:
  assumes "frames bytes 8 = (''IHDR'', n) # pre @ (''PLTE'', sz) # rest"
    and "\<forall>f \<in> set pre. fst f = ''PLTE'' \<longrightarrow>
           snd f mod 3 = 0 \<and> \<not> (unat (bytes ! 25) = 3 \<and> snd f = 0)"
  shows "\<exists>pos chunks warns info c.
           pos = 8 + (n + 12) + sum_list (map (\<lambda>f. snd f + 12) pre)
         \<and> warns = concat (map (\<lambda>f. if fst f = ''PLTE''
                                         \<and> (unat (bytes ! 25) = 0 \<or> unat (bytes ! 25) = 4)
                                         \<and> snd f \<noteq> 0
                                      then [PLTEIgnored (unat (bytes ! 25))] else []) pre)
         \<and> frames bytes pos = (''PLTE'', sz) # rest
         \<and> getUint32 bytes (pos + 8 + sz) = Some c
         \<and> map fourCC chunks = ''IHDR'' # map fst pre
         \<and> chunkInfo (hd chunks) = Some info
         \<and> read_chunkInfo bytes = Some info
         \<and> colourType info = unat (bytes ! 25)
         \<and> parseChunks bytes = parse_loop bytes pos chunks warns
         \<and> parse_chunk bytes pos chunks warns =
             (if sz mod 3 \<noteq> 0 then Inl InvalidPalette
              else if unat (bytes ! 25) = 3 \<and> sz = 0 then Inl MissingPalette
              else Inr (pos + 8 + sz + 4,
                        chunks @ [\<lparr>fourCC = ''PLTE'', chunk_size = sz,
                                    data = js_slice bytes (int (pos + 8)) (int (pos + 8 + sz)),
                                    offset = pos + 8, crc = c, chunkInfo = None\<rparr>],
                        if (unat (bytes ! 25) = 0 \<or> unat (bytes ! 25) = 4) \<and> sz \<noteq> 0
                        then warns @ [PLTEIgnored (unat (bytes ! 25))] else warns))
         \<and> parseChunks bytes =
             (if sz mod 3 \<noteq> 0 then Inl InvalidPalette
              else if unat (bytes ! 25) = 3 \<and> sz = 0 then Inl MissingPalette
              else parse_loop bytes (pos + 8 + sz + 4)
                     (chunks @ [\<lparr>fourCC = ''PLTE'', chunk_size = sz,
                                 data = js_slice bytes (int (pos + 8)) (int (pos + 8 + sz)),
                                 offset = pos + 8, crc = c, chunkInfo = None\<rparr>])
                     (if (unat (bytes ! 25) = 0 \<or> unat (bytes ! 25) = 4) \<and> sz \<noteq> 0
                      then warns @ [PLTEIgnored (unat (bytes ! 25))] else warns))"
proof -
  from assms(1) have fr: "frames bytes 8 = (''IHDR'', n) # (pre @ (''PLTE'', sz) # rest)"
    by simp
  from frames_Cons [OF fr] obtain c0 where lt: "8 < length bytes"
    and s: "getUint32 bytes 8 = Some n" and c0: "getUint32 bytes (8 + 8 + n) = Some c0"
    and tag: "decode (js_slice bytes (int 8 + 4) (int 8 + 8)) = ''IHDR''"
    and next_fr: "frames bytes (8 + 8 + n + 4) = pre @ (''PLTE'', sz) # rest"
    by blast
  obtain t k fs where "frames bytes (8 + 8 + n + 4) = (t, k) # fs"
    using next_fr by (cases pre) auto
  from frames_Cons [OF this] obtain c1 where
    "getUint32 bytes (8 + 8 + n + 4 + 8 + k) = Some c1"
    by blast
  from getUint32_Some_length [OF this] have len: "29 \<le> length bytes"
    by simp
  from read_chunkInfo_Some [OF len] obtain info where info: "read_chunkInfo bytes = Some info" ..
  have ct: "colourType info = unat (bytes ! 25)"
    using info by (rule read_chunkInfo_colourType)
  define ihdr where "ihdr = \<lparr>fourCC = ''IHDR'', chunk_size = n,
      data = js_slice bytes (int (8 + 8)) (int (8 + 8 + n)), offset = 8 + 8, crc = c0,
      chunkInfo = Some info\<rparr>"
  have first: "parse_chunk bytes 8 [] [] = Inr (8 + 8 + n + 4, [ihdr], [])"
    using s c0 tag info by (simp add: parse_chunk_def store_chunk_def ihdr_def)
  have step: "parse_loop bytes 8 [] [] = parse_loop bytes (8 + 8 + n + 4) [ihdr] []"
    using lt first by (simp add: parse_loop_step)
  define pos where "pos = 8 + (n + 12) + sum_list (map (\<lambda>f. snd f + 12) pre)"
  define warns where "warns = concat (map (\<lambda>f. if fst f = ''PLTE''
                                         \<and> (unat (bytes ! 25) = 0 \<or> unat (bytes ! 25) = 4)
                                         \<and> snd f \<noteq> 0
                                      then [PLTEIgnored (unat (bytes ! 25))] else []) pre)"
  have pos: "8 + 8 + n + 4 + sum_list (map (\<lambda>f. snd f + 12) pre) = pos"
    by (simp add: pos_def)
  have hd0: "[ihdr] \<noteq> []" "chunkInfo (hd [ihdr]) = Some info"
    by (simp_all add: ihdr_def)
  from parse_to_PLTE [OF next_fr assms(2) [folded ct] len hd0, of "[]"] obtain cs where
    reach: "parse_loop bytes (8 + 8 + n + 4) [ihdr] [] = parse_loop bytes pos ([ihdr] @ cs) warns"
    and cs: "map fourCC cs = map fst pre"
    and at: "frames bytes pos = (''PLTE'', sz) # rest"
    unfolding pos ct warns_def by auto
  from frames_Cons [OF at] obtain c where lt': "pos < length bytes"
    and s': "getUint32 bytes pos = Some sz" and c: "getUint32 bytes (pos + 8 + sz) = Some c"
    and tag': "decode (js_slice bytes (int pos + 4) (int pos + 8)) = ''PLTE''"
    by blast
  have hd: "chunkInfo (hd (ihdr # cs)) = Some info"
    by (simp add: ihdr_def)
  have it: "parse_chunk bytes pos (ihdr # cs) warns =
             (if sz mod 3 \<noteq> 0 then Inl InvalidPalette
              else if unat (bytes ! 25) = 3 \<and> sz = 0 then Inl MissingPalette
              else Inr (pos + 8 + sz + 4,
                        (ihdr # cs) @ [\<lparr>fourCC = ''PLTE'', chunk_size = sz,
                                    data = js_slice bytes (int (pos + 8)) (int (pos + 8 + sz)),
                                    offset = pos + 8, crc = c, chunkInfo = None\<rparr>],
                        if (unat (bytes ! 25) = 0 \<or> unat (bytes ! 25) = 4) \<and> sz \<noteq> 0
                        then warns @ [PLTEIgnored (unat (bytes ! 25))] else warns))"
    using PLTE_iteration [OF s' c tag' _ hd, of warns] unfolding ct by simp
  have whole: "parseChunks bytes = parse_loop bytes pos (ihdr # cs) warns"
    unfolding parseChunks_def step reach by simp
  have "parse_loop bytes pos (ihdr # cs) warns =
             (if sz mod 3 \<noteq> 0 then Inl InvalidPalette
              else if unat (bytes ! 25) = 3 \<and> sz = 0 then Inl MissingPalette
              else parse_loop bytes (pos + 8 + sz + 4)
                     ((ihdr # cs) @ [\<lparr>fourCC = ''PLTE'', chunk_size = sz,
                                 data = js_slice bytes (int (pos + 8)) (int (pos + 8 + sz)),
                                 offset = pos + 8, crc = c, chunkInfo = None\<rparr>])
                     (if (unat (bytes ! 25) = 0 \<or> unat (bytes ! 25) = 4) \<and> sz \<noteq> 0
                      then warns @ [PLTEIgnored (unat (bytes ! 25))] else warns))"
    using lt' it by (subst parse_loop.simps) (simp del: append_Cons)
  with whole have final: "parseChunks bytes =
             (if sz mod 3 \<noteq> 0 then Inl InvalidPalette
              else if unat (bytes ! 25) = 3 \<and> sz = 0 then Inl MissingPalette
              else parse_loop bytes (pos + 8 + sz + 4)
                     ((ihdr # cs) @ [\<lparr>fourCC = ''PLTE'', chunk_size = sz,
                                 data = js_slice bytes (int (pos + 8)) (int (pos + 8 + sz)),
                                 offset = pos + 8, crc = c, chunkInfo = None\<rparr>])
                     (if (unat (bytes ! 25) = 0 \<or> unat (bytes ! 25) = 4) \<and> sz \<noteq> 0
                      then warns @ [PLTEIgnored (unat (bytes ! 25))] else warns))"
    by simp
  have names: "map fourCC (ihdr # cs) = ''IHDR'' # map fst pre"
    using cs by (simp add: ihdr_def)
  show ?thesis
    apply (rule exI [of _ pos])
    apply (rule exI [of _ "ihdr # cs"])
    apply (rule exI [of _ warns])
    apply (rule exI [of _ info])
    apply (rule exI [of _ c])
    using pos_def warns_def at c names hd info ct whole it final
    apply (intro conjI)
    apply assumption+
    done
qed

theorem PLTE_after_header_witness:
  "(\<exists>chunks. map fourCC chunks = [''IHDR'', ''PLTE'']
     \<and> parseChunks [137, 80, 78, 71, 13, 10, 26, 10,
                0, 0, 0, 13, 73, 72, 68, 82, 0, 0, 0, 2, 0, 0, 0, 1, 8, 4, 0, 0, 0, 9, 9, 9, 9,
                0, 0, 0, 3, 80, 76, 84, 69, 7, 7, 7, 1, 2, 3, 4,
                0, 0, 0, 3, 80, 76, 84, 69, 8, 8, 8, 5, 6, 7, 8]
       = Inr (chunks @ [\<lparr>fourCC = ''PLTE'', chunk_size = 3, data = [8, 8, 8], offset = 56,
                          crc = 84281096, chunkInfo = None\<rparr>],
              [PLTEIgnored 4, PLTEIgnored 4]))
   \<and> parseChunks [137, 80, 78, 71, 13, 10, 26, 10,
                  0, 0, 0, 13, 73, 72, 68, 82, 0, 0, 0, 2, 0, 0, 0, 1, 8, 3, 0, 0, 0, 9, 9, 9, 9,
                  0, 0, 0, 0, 80, 76, 84, 69, 1, 2, 3, 4] = Inl MissingPalette
   \<and> parseChunks [137, 80, 78, 71, 13, 10, 26, 10,
                  0, 0, 0, 13, 73, 72, 68, 82, 0, 0, 0, 2, 0, 0, 0, 1, 8, 3, 0, 0, 0, 9, 9, 9, 9,
                  0, 0, 0, 1, 80, 76, 84, 69, 7, 1, 2, 3, 4] = Inl InvalidPalette"
proof -
  let ?s = "[137, 80, 78, 71, 13, 10, 26, 10,
             0, 0, 0, 13, 73, 72, 68, 82, 0, 0, 0, 2, 0, 0, 0, 1, 8, 4, 0, 0, 0, 9, 9, 9, 9,
             0, 0, 0, 3, 80, 76, 84, 69, 7, 7, 7, 1, 2, 3, 4,
             0, 0, 0, 3, 80, 76, 84, 69, 8, 8, 8, 5, 6, 7, 8] :: 8 word list"
  let ?a = "[137, 80, 78, 71, 13, 10, 26, 10,
             0, 0, 0, 13, 73, 72, 68, 82, 0, 0, 0, 2, 0, 0, 0, 1, 8, 3, 0, 0, 0, 9, 9, 9, 9,
             0, 0, 0, 0, 80, 76, 84, 69, 1, 2, 3, 4] :: 8 word list"
  let ?b = "[137, 80, 78, 71, 13, 10, 26, 10,
             0, 0, 0, 13, 73, 72, 68, 82, 0, 0, 0, 2, 0, 0, 0, 1, 8, 3, 0, 0, 0, 9, 9, 9, 9,
             0, 0, 0, 1, 80, 76, 84, 69, 7, 1, 2, 3, 4] :: 8 word list"
  have "frames ?s 63 = []"
    by (subst frames.simps) simp
  then have "frames ?s 48 = [(''PLTE'', 3)]"
    by (subst frames.simps)
       (simp add: getUint32_def decode_def js_slice_def relative_index_def char_of_eq_iff)
  then have "frames ?s 33 = [(''PLTE'', 3), (''PLTE'', 3)]"
    by (subst frames.simps)
       (simp add: getUint32_def decode_def js_slice_def relative_index_def char_of_eq_iff)
  then have fr: "frames ?s 8 = (''IHDR'', 13) # [(''PLTE'', 3)] @ (''PLTE'', 3) # []"
    by (subst frames.simps)
       (simp add: getUint32_def decode_def js_slice_def relative_index_def char_of_eq_iff)
  have pass: "\<forall>f \<in> set [(''PLTE'', 3 :: nat)]. fst f = ''PLTE'' \<longrightarrow>
      snd f mod 3 = 0 \<and> \<not> (unat (?s ! 25) = 3 \<and> snd f = 0)"
    by simp
  have c: "getUint32 ?s 59 = Some 84281096"
    by (simp add: getUint32_def)
  have dat: "js_slice ?s (int 56) (int 59) = [8, 8, 8]"
    by (simp add: js_slice_def relative_index_def)
  from PLTE_after_header [OF fr pass]
  have warned: "\<exists>chunks. map fourCC chunks = [''IHDR'', ''PLTE'']
     \<and> parseChunks ?s
       = Inr (chunks @ [\<lparr>fourCC = ''PLTE'', chunk_size = 3, data = [8, 8, 8], offset = 56,
                          crc = 84281096, chunkInfo = None\<rparr>],
              [PLTEIgnored 4, PLTEIgnored 4])"
  proof (elim exE conjE, goal_cases)
    case (1 pos chunks warns info c')
    have pos: "pos = 48" using 1(1) by simp
    have warns: "warns = [PLTEIgnored 4]" using 1(2) by simp
    have c': "c' = 84281096" using 1(4) c unfolding pos by simp
    have names: "map fourCC chunks = [''IHDR'', ''PLTE'']" using 1(5) by simp
    have "parseChunks ?s = parse_loop ?s 63
           (chunks @ [\<lparr>fourCC = ''PLTE'', chunk_size = 3, data = [8, 8, 8], offset = 56,
                         crc = 84281096, chunkInfo = None\<rparr>])
           [PLTEIgnored 4, PLTEIgnored 4]"
      using 1(11) dat unfolding pos warns c' by simp
    then have res: "parseChunks ?s =
        Inr (chunks @ [\<lparr>fourCC = ''PLTE'', chunk_size = 3, data = [8, 8, 8], offset = 56,
                          crc = 84281096, chunkInfo = None\<rparr>],
             [PLTEIgnored 4, PLTEIgnored 4])"
      by (simp add: parse_loop_end)
    show ?case
      apply (rule exI [of _ chunks])
      apply (rule conjI)
       apply (rule names)
      apply (rule res)
      done
  qed
  have "frames ?a 45 = []"
    by (subst frames.simps) simp
  then have "frames ?a 33 = [(''PLTE'', 0)]"
    by (subst frames.simps)
       (simp add: getUint32_def decode_def js_slice_def relative_index_def char_of_eq_iff)
  then have fa: "frames ?a 8 = (''IHDR'', 13) # [] @ (''PLTE'', 0) # []"
    by (subst frames.simps)
       (simp add: getUint32_def decode_def js_slice_def relative_index_def char_of_eq_iff)
  have "frames ?b 46 = []"
    by (subst frames.simps) simp
  then have "frames ?b 33 = [(''PLTE'', 1)]"
    by (subst frames.simps)
       (simp add: getUint32_def decode_def js_slice_def relative_index_def char_of_eq_iff)
  then have fb: "frames ?b 8 = (''IHDR'', 13) # [] @ (''PLTE'', 1) # []"
    by (subst frames.simps)
       (simp add: getUint32_def decode_def js_slice_def relative_index_def char_of_eq_iff)
  have missing: "parseChunks ?a = Inl MissingPalette"
    using PLTE_after_header [OF fa] by simp (elim exE conjE, simp)
  have invalid: "parseChunks ?b = Inl InvalidPalette"
    using PLTE_after_header [OF fb] by simp (elim exE conjE, simp)
  show ?thesis
    apply (rule conjI)
     apply (rule warned)
    apply (rule conjI)
     apply (rule missing)
    apply (rule invalid)
    done
qed

text \<open>
  From a cursor where no chunk with header information leads \<^verbatim>\<open>chunks\<close>, the loop runs
  up to the first \<^verbatim>\<open>PLTE\<close> chunk and fails there. An \<^verbatim>\<open>IHDR\<close> chunk on the way is not the
  first chunk, so the stream is long enough for the seven reads of its header.
\<close>

lemma PLTE_without_header:
  assumes "frames bytes pos = pre @ (''PLTE'', sz) # rest"
    and "''PLTE'' \<notin> fst ` set pre"
    and "(chunks = [] \<and> 8 \<le> pos \<and> (pre = [] \<or> fst (hd pre) \<noteq> ''IHDR''))
       \<or> (chunks \<noteq> [] \<and> chunkInfo (hd chunks) = None \<and> 17 \<le> pos)"
  shows "parse_loop bytes pos chunks warns =
           (if sz mod 3 = 0 then Inl TypeError else Inl InvalidPalette)"
  using assms
proof (induction pre arbitrary: pos chunks warns)
  case Nil
  then have fr: "frames bytes pos = (''PLTE'', sz) # rest" by simp
  from frames_Cons [OF fr] obtain c where lt: "pos < length bytes"
    and s: "getUint32 bytes pos = Some sz" and c: "getUint32 bytes (pos + 8 + sz) = Some c"
    and tag: "decode (js_slice bytes (int pos + 4) (int pos + 8)) = ''PLTE''"
    by blast
  have "first_colourType chunks = Inl TypeError"
    using Nil.prems(3) by (intro first_colourType_None) auto
  then have "parse_chunk bytes pos chunks warns =
      (if sz mod 3 = 0 then Inl TypeError else Inl InvalidPalette)"
    using s c tag by (simp add: parse_chunk_def store_chunk_def)
  then show ?case
    using lt by (simp add: parse_loop_fail)
next
  case (Cons f pre)
  obtain tag n where f: "f = (tag, n)" by (cases f)
  from Cons.prems(1) f have fr: "frames bytes pos = (tag, n) # (pre @ (''PLTE'', sz) # rest)"
    by simp
  from frames_Cons [OF fr] obtain c where lt: "pos < length bytes"
    and s: "getUint32 bytes pos = Some n" and c: "getUint32 bytes (pos + 8 + n) = Some c"
    and tag: "decode (js_slice bytes (int pos + 4) (int pos + 8)) = tag"
    and next_fr: "frames bytes (pos + 8 + n + 4) = pre @ (''PLTE'', sz) # rest"
    by blast
  from Cons.prems(2) f have np: "tag \<noteq> ''PLTE''" and np': "''PLTE'' \<notin> fst ` set pre"
    by auto
  have len: "pos + 8 + n + 4 \<le> length bytes"
    using getUint32_Some_length [OF c] by simp
  have "\<exists>ch. store_chunk bytes tag n (js_slice bytes (int (pos + 8)) (int (pos + 8 + n)))
                (pos + 8) c chunks warns = Inr (chunks @ [ch], warns)
             \<and> (chunks = [] \<longrightarrow> chunkInfo ch = None)"
  proof (cases "tag = ''IHDR''")
    case True
    with Cons.prems(3) f have "17 \<le> pos" by auto
    with len have "29 \<le> length bytes" by simp
    from read_chunkInfo_Some [OF this] obtain info where "read_chunkInfo bytes = Some info" ..
    moreover from True Cons.prems(3) f have "chunks \<noteq> []" by auto
    ultimately show ?thesis using True by (simp add: store_chunk_def)
  next
    case False
    with np show ?thesis by (simp add: store_chunk_def)
  qed
  then obtain ch where st: "store_chunk bytes tag n
        (js_slice bytes (int (pos + 8)) (int (pos + 8 + n))) (pos + 8) c chunks warns
        = Inr (chunks @ [ch], warns)"
    and ch: "chunks = [] \<longrightarrow> chunkInfo ch = None"
    by blast
  have pc: "parse_chunk bytes pos chunks warns = Inr (pos + 8 + n + 4, chunks @ [ch], warns)"
    using s c tag st by (simp add: parse_chunk_def)
  have inv: "(chunks @ [ch] = [] \<and> 8 \<le> pos + 8 + n + 4 \<and> (pre = [] \<or> fst (hd pre) \<noteq> ''IHDR''))
      \<or> (chunks @ [ch] \<noteq> [] \<and> chunkInfo (hd (chunks @ [ch])) = None \<and> 17 \<le> pos + 8 + n + 4)"
    using Cons.prems(3) ch by (cases chunks) auto
  show ?case
    using Cons.IH [OF next_fr np' inv] lt pc by (simp add: parse_loop_step)
qed

text \<open>
  Claim C10, as stated: every stream that holds a \<^verbatim>\<open>PLTE\<close> chunk and whose first chunk is
  not an \<^verbatim>\<open>IHDR\<close> chunk faults with the read of an undefined field, not with a named
  palette error. This fails when the length of the palette is not a multiple of 3, which the
  source tests before it reads the header: the stream below holds one \<^verbatim>\<open>PLTE\<close> chunk of
  length 1, and the parse fails with \<open>InvalidPalette\<close>.
\<close>

theorem PLTE_length_checked_first:
  "frames [137, 80, 78, 71, 13, 10, 26, 10, 0, 0, 0, 1, 80, 76, 84, 69, 7, 1, 2, 3, 4] 8
     = [(''PLTE'', 1)]
   \<and> parseChunks [137, 80, 78, 71, 13, 10, 26, 10, 0, 0, 0, 1, 80, 76, 84, 69, 7, 1, 2, 3, 4]
     = Inl InvalidPalette"
  unfolding parseChunks_def
  apply (subst parse_loop.simps)
  apply (subst frames.simps)
  apply (simp add: parse_chunk_def getUint32_def store_chunk_def decode_def js_slice_def
      relative_index_def char_of_eq_iff)
  apply (subst frames.simps)
  apply simp
  done

text \<open>
  Claim C10, amended: for every stream whose first chunk is not an \<^verbatim>\<open>IHDR\<close> chunk and
  whose chunks up to its first \<^verbatim>\<open>PLTE\<close> chunk lie inside the stream, \<open>parseChunks\<close> fails
  at that \<^verbatim>\<open>PLTE\<close> chunk: with the \<open>TypeError\<close> of the unguarded read of
  \<^verbatim>\<open>chunks[0].chunkInfo.colourType\<close> when the declared length of the palette is a multiple
  of 3, and with \<open>InvalidPalette\<close> when it is not.
\<close>

theorem PLTE_before_header:
  assumes "frames bytes 8 = pre @ (''PLTE'', sz) # rest"
    and "''PLTE'' \<notin> fst ` set pre"
    and "pre = [] \<or> fst (hd pre) \<noteq> ''IHDR''"
  shows "parseChunks bytes = (if sz mod 3 = 0 then Inl TypeError else Inl InvalidPalette)"
  unfolding parseChunks_def
  using assms by (intro PLTE_without_header) auto

theorem PLTE_before_header_witness:
  "parseChunks [137, 80, 78, 71, 13, 10, 26, 10,
                0, 0, 0, 0, 116, 69, 88, 116, 9, 9, 9, 9,
                0, 0, 0, 3, 80, 76, 84, 69, 7, 7, 7, 1, 2, 3, 4] = Inl TypeError"
proof -
  let ?s = "[137, 80, 78, 71, 13, 10, 26, 10,
             0, 0, 0, 0, 116, 69, 88, 116, 9, 9, 9, 9,
             0, 0, 0, 3, 80, 76, 84, 69, 7, 7, 7, 1, 2, 3, 4] :: 8 word list"
  have "frames ?s 35 = []"
    by (subst frames.simps) simp
  then have "frames ?s 20 = [(''PLTE'', 3)]"
    by (subst frames.simps)
       (simp add: getUint32_def decode_def js_slice_def relative_index_def char_of_eq_iff)
  then have "frames ?s 8 = [(''tEXt'', 0)] @ (''PLTE'', 3) # []"
    by (subst frames.simps)
       (simp add: getUint32_def decode_def js_slice_def relative_index_def char_of_eq_iff)
  from PLTE_before_header [OF this] show ?thesis
    by simp
qed

subsection \<open>reverseFiltering\<close>

text \<open>
  A cell, a row and a grid stay in order when the grid grows elsewhere: the pixel of a cell
  depends on the entry to its left and on the row above only.
\<close>

lemma pixel_of_eq:
  assumes "element (g' ! r) (int j) = element (g ! r) (int j)"
    and "r > 0 \<Longrightarrow> g' ! (r - 1) = g ! (r - 1)"
  shows "pixel_of array w g' r j = pixel_of array w g r j"
  using assms by (simp add: pixel_of_def)

lemma cell_ok_eq:
  assumes "g' ! r ! (j + 1) = g ! r ! (j + 1)"
    and "element (g' ! r) (int j) = element (g ! r) (int j)"
    and "r > 0 \<Longrightarrow> g' ! (r - 1) = g ! (r - 1)"
  shows "cell_ok array w g' r j = cell_ok array w g r j"
  using assms pixel_of_eq [OF assms(2,3)] by (simp add: cell_ok_def)

lemma row_ok_eq:
  assumes "g' ! r = g ! r" and "r > 0 \<Longrightarrow> g' ! (r - 1) = g ! (r - 1)"
  shows "row_ok array w g' r n = row_ok array w g r n"
  using assms cell_ok_eq [of g' r _ g] by (simp add: row_ok_def)

lemma grid_ok_first: "grid_ok array w [[Num (array ! 0)]] 0 0"
  by (simp add: grid_ok_def row_ok_def)

lemma grid_ok_new_row:
  assumes "grid_ok array w g r w"
  shows "grid_ok array w (g @ [[Num (array ! (Suc r * (4 * w + 1)))]]) (Suc r) 0"
proof -
  let ?g = "g @ [[Num (array ! (Suc r * (4 * w + 1)))]]"
  from assms have len: "length g = r + 1" by (simp add: grid_ok_def)
  have same: "?g ! r' = g ! r'" if "r' \<le> r" for r'
    using that len by (simp add: nth_append)
  have "row_ok array w ?g r' w" if "r' < Suc r" for r'
  proof -
    from that assms have "row_ok array w g r' w"
      by (cases "r' = r") (auto simp: grid_ok_def)
    moreover have "row_ok array w ?g r' w = row_ok array w g r' w"
      using that by (intro row_ok_eq same) auto
    ultimately show ?thesis by simp
  qed
  moreover have "row_ok array w ?g (Suc r) 0"
    using len by (simp add: row_ok_def nth_append)
  ultimately show ?thesis
    using len by (simp add: grid_ok_def)
qed

lemma grid_ok_push:
  assumes g: "grid_ok array w g r j"
    and p: "pixel_of array w g r j = Inr p"
    and lp: "length p = min 4 (length array - pix_start w r j)"
    and rp: "\<forall>v \<in> set p. 0 \<le> v \<and> v < 256"
  shows "grid_ok array w (g[r := g ! r @ [Pix p]]) r (Suc j)"
proof -
  let ?g = "g[r := g ! r @ [Pix p]]"
  from g have len: "length g = r + 1" and lr: "length (g ! r) = j + 1"
    and hd: "g ! r ! 0 = Num (array ! (r * (4 * w + 1)))"
    and cells: "\<forall>j' < j. cell_ok array w g r j'"
    and rows: "\<forall>r' < r. row_ok array w g r' w"
    by (simp_all add: grid_ok_def row_ok_def)
  have cur: "?g ! r = g ! r @ [Pix p]" using len by simp
  have other: "?g ! r' = g ! r'" if "r' \<noteq> r" for r' using that by simp
  have el: "element (?g ! r) (int k) = element (g ! r) (int k)" if "k \<le> j" for k
    using that lr by (simp add: cur element_nat nth_append)
  have "row_ok array w ?g r' w" if "r' < r" for r'
  proof -
    have "row_ok array w ?g r' w = row_ok array w g r' w"
      using that by (intro row_ok_eq other) auto
    with rows that show ?thesis by simp
  qed
  moreover have "cell_ok array w ?g r j'" if "j' < Suc j" for j'
  proof (cases "j' = j")
    case True
    have "pixel_of array w ?g r j = pixel_of array w g r j"
      by (intro pixel_of_eq el other) auto
    with p lp rp lr show ?thesis
      unfolding True by (simp add: cell_ok_def cur nth_append)
  next
    case False
    with that have lt: "j' < j" by simp
    have "cell_ok array w ?g r j' = cell_ok array w g r j'"
      using lt lr by (intro cell_ok_eq el other) (auto simp: cur nth_append)
    with cells lt show ?thesis by simp
  qed
  ultimately show ?thesis
    using len lr hd by (simp add: grid_ok_def row_ok_def cur nth_append)
qed

text \<open>
  The \<^verbatim>\<open>map\<close> callbacks succeed when every channel they read exists, and on non-negative
  numbers \<^verbatim>\<open>%\<close> is the mathematical \<open>mod\<close>. With complete neighbours, the \<^verbatim>\<open>switch\<close>
  yields the reconstruction of the specification.
\<close>

lemma map_idx_Inr:
  assumes "\<And>k. k < length xs \<Longrightarrow> f (xs ! k) (n + k) = Inr (h k)"
  shows "map_idx f n xs = Inr (map h [0..<length xs])"
  using assms
proof (induction xs arbitrary: n h)
  case Nil
  then show ?case by simp
next
  case (Cons x xs)
  from Cons.prems [of 0] have x: "f x n = Inr (h 0)" by simp
  have "map_idx f (Suc n) xs = Inr (map (\<lambda>k. h (Suc k)) [0..<length xs])"
  proof (rule Cons.IH)
    fix k assume "k < length xs"
    then show "f (xs ! k) (Suc n + k) = Inr (h (Suc k))"
      using Cons.prems [of "Suc k"] by simp
  qed
  with x show ?case
    by (simp add: map_upt_Suc del: upt_Suc)
qed

lemma js_rem_nonneg: "0 \<le> a \<Longrightarrow> js_rem a 256 = a mod 256"
  by (simp add: js_rem_def)

lemma paeth_cases: "paeth a b c = a \<or> paeth a b c = b \<or> paeth a b c = c"
  by (simp add: paeth_def Let_def)

lemma paeth_nonneg: "0 \<le> a \<Longrightarrow> 0 \<le> b \<Longrightarrow> 0 \<le> c \<Longrightarrow> 0 \<le> paeth a b c"
  using paeth_cases [of a b c] by auto

lemma unfilter_value:
  assumes fb: "fb \<in> {0, 1, 2, 3, 4}"
    and cur: "length cur \<le> 4" "\<forall>v \<in> set cur. 0 \<le> v \<and> v < 256"
    and left: "j > 0 \<Longrightarrow> prevPixel = Some (Pix pl) \<and> length pl = 4 \<and> (\<forall>v \<in> set pl. 0 \<le> v)"
    and up: "prevLinePixel = Some (Pix pu) \<and> length pu = 4 \<and> (\<forall>v \<in> set pu. 0 \<le> v)"
    and ul: "j > 0 \<and> r > 0 \<Longrightarrow> upLeft = Some (Pix pc) \<and> length pc = 4 \<and> (\<forall>v \<in> set pc. 0 \<le> v)"
    and top: "r = 0 \<Longrightarrow> pu = [0, 0, 0, 0]"
  shows "unfilter (Some fb) j (int r) cur prevPixel prevLinePixel upLeft =
           Inr (map (\<lambda>k. reconstruct fb (cur ! k) (if j > 0 then pl ! k else 0)
                            (if r > 0 then pu ! k else 0)
                            (if j > 0 \<and> r > 0 then pc ! k else 0)) [0..<length cur])"
proof -
  have x: "0 \<le> cur ! k" "cur ! k < 256" if "k < length cur" for k
    using cur(2) that by auto
  have a: "channel prevPixel k = Inr (pl ! k)" "0 \<le> pl ! k" if "k < length cur" "j > 0" for k
    using left that cur(1) by auto
  have b: "channel prevLinePixel k = Inr (pu ! k)" "0 \<le> pu ! k" if "k < length cur" for k
    using up that cur(1) by auto
  have c: "channel upLeft k = Inr (pc ! k)" "0 \<le> pc ! k" if "k < length cur" "j > 0" "r > 0" for k
    using ul that cur(1) by auto
  have b0: "pu ! k = 0" if "r = 0" "k < length cur" for k
    using top that cur(1) by (auto simp: nth_Cons' )
  consider "fb = 0" | "fb = 1" | "fb = 2" | "fb = 3" | "fb = 4" using fb by auto
  then show ?thesis
  proof cases
    case 1
    then show ?thesis
      by (simp add: unfilter_def reconstruct_def map_nth)
  next
    case 2
    show ?thesis
    proof (cases "j > 0")
      case True
      with 2 show ?thesis
        unfolding unfilter_def
        by (simp add: reconstruct_def)
           (rule map_idx_Inr, simp add: a x js_rem_nonneg)
    next
      case False
      with 2 x show ?thesis
        by (auto simp: unfilter_def reconstruct_def intro!: nth_equalityI)
    qed
  next
    case 3
    then show ?thesis
      unfolding unfilter_def
      by (simp add: reconstruct_def) (rule map_idx_Inr, auto simp: b b0 x js_rem_nonneg)
  next
    case 4
    then show ?thesis
      unfolding unfilter_def
      by (simp add: reconstruct_def)
         (rule map_idx_Inr, auto simp: a b b0 x js_rem_nonneg pos_imp_zdiv_nonneg_iff)
  next
    case 5
    then show ?thesis
      unfolding unfilter_def
      by (simp add: reconstruct_def)
         (rule map_idx_Inr, auto simp: a b c x js_rem_nonneg paeth_nonneg)
  qed
qed

lemma unfilter_bad: "fb \<notin> {0, 1, 2, 3, 4} \<Longrightarrow> unfilter (Some fb) j r cur a b c = Inl UnexpectedFilterByte"
  by (simp add: unfilter_def)

lemma reconstruct_range:
  assumes "fb \<in> {0, 1, 2, 3, 4}" "0 \<le> x" "x < 256"
  shows "0 \<le> reconstruct fb x a b c \<and> reconstruct fb x a b c < 256"
  using assms by (auto simp: reconstruct_def)

text \<open>
  In a grid that is in order, the neighbours of a pixel that starts inside the payload are
  complete pixels, so the \<^verbatim>\<open>switch\<close> never reads an undefined channel.
\<close>

lemma pix_start_left: "pix_start w r (Suc j) = pix_start w r j + 4"
  by (simp add: pix_start_def)

lemma pix_start_up: "0 < w \<Longrightarrow> pix_start w r j + 4 \<le> pix_start w (Suc r) j"
  by (simp add: pix_start_def)

lemma cell_full:
  assumes "cell_ok array w g r j" and "pix_start w r j + 4 \<le> length array"
  shows "\<exists>p. g ! r ! (j + 1) = Pix p \<and> length p = 4 \<and> (\<forall>v \<in> set p. 0 \<le> v \<and> v < 256)"
  using assms by (auto simp: cell_ok_def)

lemma pixel_of_value:
  assumes grid: "grid_ok array w g R J"
    and pos: "r \<le> R" "j < w" "r = R \<Longrightarrow> j \<le> J"
    and fits: "pix_start w r j \<le> length array"
    and bytes: "\<forall>v \<in> set array. 0 \<le> v \<and> v < 256"
    and fb: "array ! (r * (4 * w + 1)) \<in> {0, 1, 2, 3, 4}"
  shows "\<exists>pl pu pc.
           (j > 0 \<longrightarrow> g ! r ! j = Pix pl \<and> length pl = 4)
         \<and> (r > 0 \<longrightarrow> g ! (r - 1) ! (j + 1) = Pix pu \<and> length pu = 4)
         \<and> (j > 0 \<and> r > 0 \<longrightarrow> g ! (r - 1) ! j = Pix pc \<and> length pc = 4)
         \<and> pixel_of array w g r j =
             Inr (map (\<lambda>k. reconstruct (array ! (r * (4 * w + 1)))
                              (array ! (pix_start w r j + k))
                              (if j > 0 then pl ! k else 0)
                              (if r > 0 then pu ! k else 0)
                              (if j > 0 \<and> r > 0 then pc ! k else 0))
                      [0..<min 4 (length array - pix_start w r j)])"
proof -
  define n where "n = (if r < R then w else J)"
  from grid pos have row: "row_ok array w g r n"
    by (auto simp: grid_ok_def n_def)
  from pos have jn: "j \<le> n" by (auto simp: n_def)
  from pos(2) have w: "0 < w" by simp
  from row jn have here: "element (g ! r) (int j) = Some (g ! r ! j)"
    by (simp add: row_ok_def element_nat)
  have up_row: "row_ok array w g (r - 1) w" if "r > 0"
    using grid pos that by (auto simp: grid_ok_def)
  have "\<exists>pl. g ! r ! j = Pix pl \<and> length pl = 4 \<and> (\<forall>v \<in> set pl. 0 \<le> v \<and> v < 256)" if "j > 0"
  proof -
    from that obtain j' where j': "j = Suc j'" by (cases j) auto
    with row jn have "cell_ok array w g r j'" by (simp add: row_ok_def)
    from cell_full [OF this] fits show ?thesis
      by (simp add: j' pix_start_left)
  qed
  then obtain pl where pl: "j > 0 \<Longrightarrow> g ! r ! j = Pix pl \<and> length pl = 4
      \<and> (\<forall>v \<in> set pl. 0 \<le> v \<and> v < 256)"
    by (cases "j > 0") auto
  have "\<exists>pu. g ! (r - 1) ! (j + 1) = Pix pu \<and> length pu = 4
      \<and> (\<forall>v \<in> set pu. 0 \<le> v \<and> v < 256)" if "r > 0"
  proof -
    from that obtain r' where r': "r = Suc r'" by (cases r) auto
    from up_row [OF that] pos(2) have "cell_ok array w g r' j" by (simp add: row_ok_def r')
    from cell_full [OF this] fits pix_start_up [OF w, of r' j] show ?thesis
      by (simp add: r')
  qed
  then obtain pu where pu: "r > 0 \<Longrightarrow> g ! (r - 1) ! (j + 1) = Pix pu \<and> length pu = 4
      \<and> (\<forall>v \<in> set pu. 0 \<le> v \<and> v < 256)"
    by (cases "r > 0") auto
  have "\<exists>pc. g ! (r - 1) ! j = Pix pc \<and> length pc = 4 \<and> (\<forall>v \<in> set pc. 0 \<le> v \<and> v < 256)"
    if "j > 0" "r > 0"
  proof -
    from that obtain r' j' where r': "r = Suc r'" and j': "j = Suc j'"
      by (cases r; cases j) auto
    from up_row [OF that(2)] pos(2) have "cell_ok array w g r' j'"
      by (simp add: row_ok_def r' j')
    moreover have "pix_start w r' j' + 4 \<le> length array"
      using fits pix_start_up [OF w, of r' j'] by (simp add: r' j' pix_start_left)
    ultimately show ?thesis
      using cell_full by (simp add: r' j')
  qed
  then obtain pc where pc: "j > 0 \<and> r > 0 \<Longrightarrow> g ! (r - 1) ! j = Pix pc \<and> length pc = 4
      \<and> (\<forall>v \<in> set pc. 0 \<le> v \<and> v < 256)"
    by (cases "j > 0 \<and> r > 0") auto
  let ?pu = "if r > 0 then pu else [0, 0, 0, 0]"
  let ?cur = "take 4 (drop (pix_start w r j) array)"
  have up_el: "(if r > 0 then element (g ! (r - 1)) (int j + 1) else Some (Pix [0, 0, 0, 0]))
      = Some (Pix ?pu)"
    using up_row pos(2) pu by (auto simp: element_nat_Suc row_ok_def)
  have ul_el: "(if r > 0 then element (g ! (r - 1)) (int j) else None) = Some (Pix pc)"
    if "j > 0 \<and> r > 0"
    using up_row pos(2) pc that by (auto simp: element_nat row_ok_def)
  have cur_len: "length ?cur = min 4 (length array - pix_start w r j)"
    by simp
  have cur_nth: "?cur ! k = array ! (pix_start w r j + k)" if "k < length ?cur" for k
    using that fits by simp
  have cur_bytes: "\<forall>v \<in> set ?cur. 0 \<le> v \<and> v < 256"
    using bytes by (meson in_set_dropD in_set_takeD)
  have "pixel_of array w g r j =
      Inr (map (\<lambda>k. reconstruct (array ! (r * (4 * w + 1))) (?cur ! k)
                       (if j > 0 then pl ! k else 0)
                       (if r > 0 then ?pu ! k else 0)
                       (if j > 0 \<and> r > 0 then pc ! k else 0)) [0..<length ?cur])"
    unfolding pixel_of_def here up_el
  proof (rule unfilter_value [OF fb])
    show "length ?cur \<le> 4" by simp
    show "\<forall>v \<in> set ?cur. 0 \<le> v \<and> v < 256" by (rule cur_bytes)
    show "Some (g ! r ! j) = Some (Pix pl) \<and> length pl = 4 \<and> (\<forall>v \<in> set pl. 0 \<le> v)" if "j > 0"
      using pl [OF that] by auto
    show "Some (Pix ?pu) = Some (Pix ?pu) \<and> length ?pu = 4 \<and> (\<forall>v \<in> set ?pu. 0 \<le> v)"
      using pu by auto
    show "(if r > 0 then element (g ! (r - 1)) (int j) else None) = Some (Pix pc)
        \<and> length pc = 4 \<and> (\<forall>v \<in> set pc. 0 \<le> v)" if "j > 0 \<and> r > 0"
      using ul_el [OF that] pc [OF that] by auto
    show "?pu = [0, 0, 0, 0]" if "r = 0"
      using that by simp
  qed
  also have "\<dots> = Inr (map (\<lambda>k. reconstruct (array ! (r * (4 * w + 1)))
                              (array ! (pix_start w r j + k))
                              (if j > 0 then pl ! k else 0)
                              (if r > 0 then pu ! k else 0)
                              (if j > 0 \<and> r > 0 then pc ! k else 0))
                      [0..<min 4 (length array - pix_start w r j)])"
  proof -
    have "map (\<lambda>k. reconstruct (array ! (r * (4 * w + 1))) (?cur ! k)
                       (if j > 0 then pl ! k else 0)
                       (if r > 0 then ?pu ! k else 0)
                       (if j > 0 \<and> r > 0 then pc ! k else 0)) [0..<length ?cur]
        = map (\<lambda>k. reconstruct (array ! (r * (4 * w + 1)))
                              (array ! (pix_start w r j + k))
                              (if j > 0 then pl ! k else 0)
                              (if r > 0 then pu ! k else 0)
                              (if j > 0 \<and> r > 0 then pc ! k else 0)) [0..<length ?cur]"
    proof (rule map_cong [OF refl])
      fix k assume "k \<in> set [0..<length ?cur]"
      then have "?cur ! k = array ! (pix_start w r j + k)"
        using fits by simp
      then show "reconstruct (array ! (r * (4 * w + 1))) (?cur ! k)
                       (if j > 0 then pl ! k else 0)
                       (if r > 0 then ?pu ! k else 0)
                       (if j > 0 \<and> r > 0 then pc ! k else 0)
          = reconstruct (array ! (r * (4 * w + 1)))
                              (array ! (pix_start w r j + k))
                              (if j > 0 then pl ! k else 0)
                              (if r > 0 then pu ! k else 0)
                              (if j > 0 \<and> r > 0 then pc ! k else 0)"
        by simp
    qed
    then show ?thesis
      unfolding cur_len by (simp only:)
  qed
  finally show ?thesis
    using pl pu pc by blast
qed

text \<open>One iteration: the new line, and the pixel.\<close>

lemma process_pixel_shape:
  assumes "lineNum s = int r" "pixelCount s = j" "length (res s) = r + 1"
  shows "process_pixel array i s =
     (case unfilter (filterByte s) j (int r) (take 4 (drop i array))
             (element (res s ! r) (int j))
             (if r > 0 then element (res s ! (r - 1)) (int j + 1) else Some (Pix [0, 0, 0, 0]))
             (if r > 0 then element (res s ! (r - 1)) (int j) else None) of
        Inl e \<Rightarrow> Inl e
      | Inr px \<Rightarrow> Inr (s\<lparr>res := (res s)[r := res s ! r @ [Pix px]], pixelCount := j + 1\<rparr>))"
proof -
  have sl: "js_slice array (int i) (int i + 4) = take 4 (drop i array)"
    using js_slice_nonneg [of "int i" 4 array] by simp
  have cur: "element (res s) (int r) = Some (res s ! r)"
    using assms(3) by (simp add: element_nat)
  have prev: "element (res s) (int r - 1) = (if r > 0 then Some (res s ! (r - 1)) else None)"
  proof (cases "r > 0")
    case True
    have "element (res s) (int (r - 1)) = Some (res s ! (r - 1))"
      unfolding element_nat using assms(3) by simp
    moreover have "int (r - 1) = int r - 1"
      using True by simp
    ultimately have "element (res s) (int r - 1) = Some (res s ! (r - 1))"
      by (simp only:)
    with True show ?thesis by simp
  next
    case False
    then show ?thesis by (simp add: element_negative)
  qed
  show ?thesis
    unfolding process_pixel_def assms(1) assms(2) sl cur prev Let_def
    by (cases "r > 0") (simp_all cong: sum.case_cong)
qed

lemma process_pixel_ok:
  assumes st: "state_ok array w r j s" and j: "j < w"
    and fits: "pix_start w r j \<le> length array"
    and bytes: "\<forall>v \<in> set array. 0 \<le> v \<and> v < 256"
  shows "(array ! (r * (4 * w + 1)) \<notin> {0, 1, 2, 3, 4} \<longrightarrow>
            process_pixel array (pix_start w r j) s = Inl UnexpectedFilterByte)
       \<and> (array ! (r * (4 * w + 1)) \<in> {0, 1, 2, 3, 4} \<longrightarrow>
            (\<exists>s'. process_pixel array (pix_start w r j) s = Inr s'
                  \<and> state_ok array w r (Suc j) s'))"
proof -
  from st have ln: "lineNum s = int r" and pc: "pixelCount s = j"
    and fb: "filterByte s = Some (array ! (r * (4 * w + 1)))"
    and grid: "grid_ok array w (res s) r j"
    by (simp_all add: state_ok_def)
  from grid have len: "length (res s) = r + 1" by (simp add: grid_ok_def)
  have pp: "process_pixel array (pix_start w r j) s =
      (case pixel_of array w (res s) r j of
         Inl e \<Rightarrow> Inl e
       | Inr px \<Rightarrow> Inr (s\<lparr>res := (res s)[r := res s ! r @ [Pix px]], pixelCount := j + 1\<rparr>))"
    unfolding process_pixel_shape [OF ln pc len] pixel_of_def fb ..
  show ?thesis
  proof (intro conjI impI)
    assume "array ! (r * (4 * w + 1)) \<notin> {0, 1, 2, 3, 4}"
    then show "process_pixel array (pix_start w r j) s = Inl UnexpectedFilterByte"
      unfolding pp pixel_of_def by (simp add: unfilter_bad)
  next
    assume ok: "array ! (r * (4 * w + 1)) \<in> {0, 1, 2, 3, 4}"
    from pixel_of_value [OF grid _ j _ fits bytes ok]
    obtain pl pu pc where val: "pixel_of array w (res s) r j =
        Inr (map (\<lambda>k. reconstruct (array ! (r * (4 * w + 1)))
                         (array ! (pix_start w r j + k))
                         (if j > 0 then pl ! k else 0)
                         (if r > 0 then pu ! k else 0)
                         (if j > 0 \<and> r > 0 then pc ! k else 0))
                 [0..<min 4 (length array - pix_start w r j)])"
      by auto
    define p where "p = map (\<lambda>k. reconstruct (array ! (r * (4 * w + 1)))
                         (array ! (pix_start w r j + k))
                         (if j > 0 then pl ! k else 0)
                         (if r > 0 then pu ! k else 0)
                         (if j > 0 \<and> r > 0 then pc ! k else 0))
                 [0..<min 4 (length array - pix_start w r j)]"
    have lp: "length p = min 4 (length array - pix_start w r j)"
      by (simp add: p_def)
    have rp: "\<forall>v \<in> set p. 0 \<le> v \<and> v < 256"
    proof
      fix v assume "v \<in> set p"
      then obtain k where k: "k < length array - pix_start w r j"
        and v: "v = reconstruct (array ! (r * (4 * w + 1)))
                         (array ! (pix_start w r j + k))
                         (if j > 0 then pl ! k else 0)
                         (if r > 0 then pu ! k else 0)
                         (if j > 0 \<and> r > 0 then pc ! k else 0)"
        by (auto simp: p_def)
      from k have "array ! (pix_start w r j + k) \<in> set array" by simp
      with bytes have "0 \<le> array ! (pix_start w r j + k)" "array ! (pix_start w r j + k) < 256"
        by auto
      then show "0 \<le> v \<and> v < 256"
        unfolding v by (intro reconstruct_range ok)
    qed
    from val have pv: "pixel_of array w (res s) r j = Inr p" by (simp add: p_def)
    have "grid_ok array w ((res s)[r := res s ! r @ [Pix p]]) r (Suc j)"
      using grid pv lp rp by (rule grid_ok_push)
    with st ok have "state_ok array w r (Suc j)
        (s\<lparr>res := (res s)[r := res s ! r @ [Pix p]], pixelCount := j + 1\<rparr>)"
      by (simp add: state_ok_def)
    then show "\<exists>s'. process_pixel array (pix_start w r j) s = Inr s'
        \<and> state_ok array w r (Suc j) s'"
      unfolding pp pv by simp
  qed
qed

lemma start_line_first:
  assumes "0 < length array"
  shows "state_ok array w 0 0
           (start_line (array ! 0) \<lparr>res = [], lineNum = - 1, pixelCount = 0, filterByte = None\<rparr>)"
  using assms by (simp add: state_ok_def start_line_def assign_def grid_ok_first)

lemma start_line_next:
  assumes st: "state_ok array w r w s" and w: "0 < w"
    and lt: "Suc r * (4 * w + 1) < length array"
  shows "state_ok array w (Suc r) 0 (start_line (array ! (Suc r * (4 * w + 1))) s)"
proof -
  from st have len: "length (res s) = r + 1" and ln: "lineNum s = int r"
    and grid: "grid_ok array w (res s) r w"
    by (simp_all add: state_ok_def grid_ok_def)
  have "assign (res s) (lineNum s + 1) [Num (array ! (Suc r * (4 * w + 1)))]
      = res s @ [[Num (array ! (Suc r * (4 * w + 1)))]]"
  proof -
    have "nat (lineNum s + 1) = Suc r" using ln by simp
    then show ?thesis using len by (simp only: assign_def) simp
  qed
  moreover have "\<forall>r' < Suc r. array ! (r' * (4 * w + 1)) \<in> {0, 1, 2, 3, 4}"
    using st w by (auto simp: state_ok_def less_Suc_eq)
  ultimately show ?thesis
    using st lt grid_ok_new_row [OF grid] by (simp add: state_ok_def start_line_def)
qed

text \<open>
  The loop: from a state that is in order it either stops at a filter byte outside 0..4, which
  is the first byte of a row, or ends in a state that is in order and covers the payload.
\<close>

lemma loop_exit:
  "\<not> i < length array \<Longrightarrow> reverseFiltering_loop array widthBytes i s = Inr s"
  by (subst reverseFiltering_loop.simps) simp

lemma loop_unfold:
  "i < length array \<Longrightarrow>
   reverseFiltering_loop array widthBytes i s =
     (case process_pixel array (if i mod widthBytes = 0 then i + 1 else i)
             (if i mod widthBytes = 0 then start_line (array ! i) s else s) of
        Inl e \<Rightarrow> Inl e
      | Inr s2 \<Rightarrow>
          reverseFiltering_loop array widthBytes
            ((if i mod widthBytes = 0 then i + 1 else i) + 4) s2)"
  by (subst reverseFiltering_loop.simps) (simp add: Let_def)

lemma head_step:
  assumes w: "0 < w" and head: "head_ok array w i s" and lt: "i < length array"
  shows "\<exists>r j. j < w
           \<and> (if i mod (4 * w + 1) = 0 then i + 1 else i) = pix_start w r j
           \<and> pix_start w r j \<le> length array
           \<and> state_ok array w r j
               (if i mod (4 * w + 1) = 0 then start_line (array ! i) s else s)"
proof -
  from head consider
      (init) "i = 0" "s = \<lparr>res = [], lineNum = - 1, pixelCount = 0, filterByte = None\<rparr>"
    | (run) r j where "1 \<le> j" "j \<le> w" "i = pix_start w r j" "state_ok array w r j s"
    by (auto simp: head_ok_def)
  then show ?thesis
  proof cases
    case init
    from init lt w have "state_ok array w 0 0 (start_line (array ! i) s)"
      using start_line_first [of array w] by simp
    moreover from lt have "Suc 0 \<le> length array" by simp
    ultimately show ?thesis
      using init w by (intro exI [of _ 0]) (simp add: pix_start_def)
  next
    case (run r j)
    show ?thesis
    proof (cases "j = w")
      case True
      with run have i: "i = Suc r * (4 * w + 1)"
        by (simp add: pix_start_def)
      have m: "i mod (4 * w + 1) = 0"
        by (simp only: i mod_mult_self2_is_0)
      from run(4) True w lt i
      have "state_ok array w (Suc r) 0 (start_line (array ! i) s)"
        using start_line_next [of array w r s] by simp
      with m i lt w show ?thesis
        by (intro exI [of _ "Suc r"] exI [of _ 0]) (simp add: pix_start_def)
    next
      case False
      with run have j: "j < w" by simp
      have "i = r * (4 * w + 1) + (1 + 4 * j)"
        unfolding run(3) pix_start_def by (simp only: add.assoc)
      then have "i mod (4 * w + 1) = (1 + 4 * j) mod (4 * w + 1)"
        by (simp only: mod_mult_self3)
      also have "\<dots> = 1 + 4 * j" using j by simp
      finally have m: "i mod (4 * w + 1) \<noteq> 0" by simp
      with run j lt show ?thesis
        by (intro exI [of _ r] exI [of _ j]) simp
    qed
  qed
qed

lemma loop_result:
  assumes w: "0 < w" and bytes: "\<forall>v \<in> set array. 0 \<le> v \<and> v < 256"
    and head: "head_ok array w i s"
  shows "((\<exists>k. k * (4 * w + 1) < length array \<and> array ! (k * (4 * w + 1)) \<notin> {0, 1, 2, 3, 4})
          \<and> reverseFiltering_loop array (4 * w + 1) i s = Inl UnexpectedFilterByte)
       \<or> (\<exists>s' i'. reverseFiltering_loop array (4 * w + 1) i s = Inr s'
              \<and> length array \<le> i' \<and> head_ok array w i' s')"
  using head
proof (induction "length array - i" arbitrary: i s rule: less_induct)
  case less
  show ?case
  proof (cases "i < length array")
    case False
    with less.prems show ?thesis
      by (intro disjI2 exI [of _ s] exI [of _ i]) (simp add: loop_exit)
  next
    case True
    let ?i1 = "if i mod (4 * w + 1) = 0 then i + 1 else i"
    let ?s1 = "if i mod (4 * w + 1) = 0 then start_line (array ! i) s else s"
    from head_step [OF w less.prems True] obtain r j where j: "j < w"
      and i1: "?i1 = pix_start w r j" and fits: "pix_start w r j \<le> length array"
      and st: "state_ok array w r j ?s1"
      by blast
    note pp = process_pixel_ok [OF st j fits bytes]
    show ?thesis
    proof (cases "array ! (r * (4 * w + 1)) \<in> {0, 1, 2, 3, 4}")
      case False
      with pp have "process_pixel array ?i1 ?s1 = Inl UnexpectedFilterByte"
        unfolding i1 by blast
      then have "reverseFiltering_loop array (4 * w + 1) i s = Inl UnexpectedFilterByte"
        by (simp only: loop_unfold [OF True] sum.case)
      moreover from st have "r * (4 * w + 1) < length array"
        by (simp add: state_ok_def)
      ultimately show ?thesis using False by blast
    next
      case ok: True
      with pp obtain s2 where s2: "process_pixel array ?i1 ?s1 = Inr s2"
        and st2: "state_ok array w r (Suc j) s2"
        unfolding i1 by blast
      have step: "reverseFiltering_loop array (4 * w + 1) i s
          = reverseFiltering_loop array (4 * w + 1) (?i1 + 4) s2"
        using s2 by (simp only: loop_unfold [OF True] sum.case)
      have "head_ok array w (?i1 + 4) s2"
        unfolding head_ok_def using st2 j fits i1
        by (intro disjI2 exI [of _ r] exI [of _ "Suc j"]) (simp add: pix_start_left)
      moreover have "length array - (?i1 + 4) < length array - i"
        using True by auto
      ultimately show ?thesis
        unfolding step by (rule less.hyps [rotated])
    qed
  qed
qed

text \<open>
  The three outcomes of the method for a positive width, and the cells of the grid it returns.
\<close>

lemma reverseFiltering_empty: "reverseFiltering [] w = Inr []"
  by (simp add: reverseFiltering_def loop_exit)

lemma reverseFiltering_cases:
  assumes w: "0 < w"
  shows "((\<exists>k. k * (4 * w + 1) < length payload
              \<and> uint (payload ! (k * (4 * w + 1))) \<notin> {0, 1, 2, 3, 4})
          \<and> reverseFiltering payload w = Inl UnexpectedFilterByte)
       \<or> (payload = [] \<and> reverseFiltering payload w = Inr [])
       \<or> (\<exists>g R J. reverseFiltering payload w = Inr g \<and> 1 \<le> J \<and> J \<le> w
              \<and> length payload \<le> pix_start w R J \<and> pix_start w R J \<le> length payload + 4
              \<and> R * (4 * w + 1) < length payload
              \<and> grid_ok (map uint payload) w g R J
              \<and> (\<forall>r \<le> R. uint (payload ! (r * (4 * w + 1))) \<in> {0, 1, 2, 3, 4}))"
proof -
  let ?array = "map uint payload"
  let ?init = "\<lparr>res = [], lineNum = - 1, pixelCount = 0, filterByte = None\<rparr>"
  have bytes: "\<forall>v \<in> set ?array. 0 \<le> v \<and> v < 256"
  proof
    fix v assume "v \<in> set ?array"
    then obtain b :: "8 word" where "v = uint b" by auto
    then show "0 \<le> v \<and> v < 256"
      using uint_lt2p [of b] by simp
  qed
  have rf: "reverseFiltering payload w =
      (case reverseFiltering_loop ?array (4 * w + 1) 0 ?init of
         Inl e \<Rightarrow> Inl e | Inr s \<Rightarrow> Inr (res s))"
    by (simp add: reverseFiltering_def mult.commute)
  have head: "head_ok ?array w 0 ?init"
    by (simp add: head_ok_def)
  from loop_result [OF w bytes head] consider
      (bad) k where "k * (4 * w + 1) < length ?array"
        "?array ! (k * (4 * w + 1)) \<notin> {0, 1, 2, 3, 4}"
        "reverseFiltering_loop ?array (4 * w + 1) 0 ?init = Inl UnexpectedFilterByte"
    | (good) s' i' where "reverseFiltering_loop ?array (4 * w + 1) 0 ?init = Inr s'"
        "length ?array \<le> i'" "head_ok ?array w i' s'"
    by blast
  then show ?thesis
  proof cases
    case bad
    then have "k * (4 * w + 1) < length payload"
      "uint (payload ! (k * (4 * w + 1))) \<notin> {0, 1, 2, 3, 4}"
      by simp_all
    with bad(3) show ?thesis
      unfolding rf by auto
  next
    case good
    from good(3) consider
        (init) "i' = 0" "s' = ?init"
      | (run) R J where "1 \<le> J" "J \<le> w" "i' = pix_start w R J" "i' \<le> length ?array + 4"
          "state_ok ?array w R J s'"
      by (auto simp: head_ok_def)
    then show ?thesis
    proof cases
      case init
      with good show ?thesis unfolding rf by simp
    next
      case run
      from run(1) have J0: "0 < J" by simp
      from run(5) have RW: "R * (4 * w + 1) < length payload"
        and grid: "grid_ok ?array w (res s') R J"
        and fbs: "\<forall>r < R. ?array ! (r * (4 * w + 1)) \<in> {0, 1, 2, 3, 4}"
        and fbR: "?array ! (R * (4 * w + 1)) \<in> {0, 1, 2, 3, 4}"
        using J0 unfolding state_ok_def length_map by blast+
      have "uint (payload ! (r * (4 * w + 1))) \<in> {0, 1, 2, 3, 4}" if "r \<le> R" for r
      proof -
        from that have "r * (4 * w + 1) \<le> R * (4 * w + 1)" by (rule mult_le_mono1)
        with RW have "r * (4 * w + 1) < length payload" by simp
        then have eq: "?array ! (r * (4 * w + 1)) = uint (payload ! (r * (4 * w + 1)))"
          by simp
        have "?array ! (r * (4 * w + 1)) \<in> {0, 1, 2, 3, 4}"
        proof (cases "r = R")
          case True
          then show ?thesis using fbR by (simp only:)
        next
          case False
          with that have "r < R" by simp
          with fbs show ?thesis by blast
        qed
        then show ?thesis unfolding eq .
      qed
      with run good RW grid show ?thesis
        unfolding rf by (intro disjI2) auto
    qed
  qed
qed

text \<open>
  In particular the method, for a positive width, never ends in a \<open>TypeError\<close> or in the
  outcome \<open>NotANumber\<close>: no read of \<^verbatim>\<open>res\<close> is undefined.
\<close>

lemma reverseFiltering_outcomes:
  assumes "0 < w"
  shows "reverseFiltering payload w = Inl UnexpectedFilterByte
       \<or> (\<exists>g. reverseFiltering payload w = Inr g)"
  using reverseFiltering_cases [OF assms, of payload] by blast

lemma grid_cell:
  assumes grid: "grid_ok array w g R J" and Jw: "J \<le> w"
    and RW: "R * (4 * w + 1) < length array"
    and last: "pix_start w R J \<le> length array + 4"
    and bytes: "\<forall>v \<in> set array. 0 \<le> v \<and> v < 256"
    and fbs: "\<forall>r \<le> R. array ! (r * (4 * w + 1)) \<in> {0, 1, 2, 3, 4}"
    and pos: "r \<le> R" "j < (if r < R then w else J)"
  shows "\<exists>p pl pu pc. g ! r ! (j + 1) = Pix p
           \<and> (j > 0 \<longrightarrow> g ! r ! j = Pix pl \<and> length pl = 4)
           \<and> (r > 0 \<longrightarrow> g ! (r - 1) ! (j + 1) = Pix pu \<and> length pu = 4)
           \<and> (j > 0 \<and> r > 0 \<longrightarrow> g ! (r - 1) ! j = Pix pc \<and> length pc = 4)
           \<and> p = map (\<lambda>k. reconstruct (array ! (r * (4 * w + 1)))
                              (array ! (pix_start w r j + k))
                              (if j > 0 then pl ! k else 0)
                              (if r > 0 then pu ! k else 0)
                              (if j > 0 \<and> r > 0 then pc ! k else 0))
                      [0..<min 4 (length array - pix_start w r j)]"
proof -
  from pos Jw have jw: "j < w" by (auto split: if_splits)
  from pos have jJ: "r = R \<Longrightarrow> j \<le> J" by simp
  have fits: "pix_start w r j \<le> length array"
  proof (cases "r < R")
    case True
    then have "Suc r * (4 * w + 1) \<le> R * (4 * w + 1)"
      by (intro mult_le_mono1) simp
    moreover have "pix_start w r j \<le> Suc r * (4 * w + 1)"
      using jw by (simp add: pix_start_def)
    ultimately show ?thesis using RW by simp
  next
    case False
    with pos have "r = R" "Suc j \<le> J" by simp_all
    then have "pix_start w r j + 4 \<le> pix_start w R J"
      by (simp add: pix_start_def)
    with last show ?thesis by simp
  qed
  from grid pos have "cell_ok array w g r j"
    by (auto simp: grid_ok_def row_ok_def split: if_splits)
  then obtain p where p: "g ! r ! (j + 1) = Pix p" "pixel_of array w g r j = Inr p"
    by (auto simp: cell_ok_def)
  from fbs pos(1) have fb: "array ! (r * (4 * w + 1)) \<in> {0, 1, 2, 3, 4}" by simp
  from pixel_of_value [OF grid pos(1) jw jJ fits bytes fb] p show ?thesis
    by auto
qed

lemma rows_below:
  assumes "k * (4 * w + 1) < length payload" "length payload \<le> pix_start w R J" "J \<le> w"
  shows "k \<le> R"
proof -
  have "pix_start w R J \<le> Suc R * (4 * w + 1)"
    using assms(3) by (simp add: pix_start_def)
  with assms(1,2) have "k * (4 * w + 1) < Suc R * (4 * w + 1)" by linarith
  then have "k < Suc R" by (simp only: mult_less_cancel2)
  then show ?thesis by simp
qed

lemma framed_grid:
  assumes w: "0 < w" and h: "0 < h" and len: "length payload = h * (4 * w + 1)"
    and fbs: "\<forall>k < h. uint (payload ! (k * (4 * w + 1))) \<in> {0, 1, 2, 3, 4}"
  shows "\<exists>g. reverseFiltering payload w = Inr g \<and> grid_ok (map uint payload) w g (h - 1) w"
proof -
  from reverseFiltering_cases [OF w, of payload] consider
      (bad) k where "k * (4 * w + 1) < length payload"
        "uint (payload ! (k * (4 * w + 1))) \<notin> {0, 1, 2, 3, 4}"
    | (empty) "payload = []"
    | (good) g R J where "reverseFiltering payload w = Inr g" "1 \<le> J" "J \<le> w"
        "length payload \<le> pix_start w R J" "R * (4 * w + 1) < length payload"
        "grid_ok (map uint payload) w g R J"
    by blast
  then show ?thesis
  proof cases
    case bad
    from bad(1) have "k < h" unfolding len by (simp only: mult_less_cancel2)
    with fbs bad(2) show ?thesis by blast
  next
    case empty
    with len h show ?thesis by simp
  next
    case good
    from good(5) have "R < h" unfolding len by (simp only: mult_less_cancel2)
    moreover have "h \<le> Suc R"
    proof -
      have "(h - 1) * (4 * w + 1) < length payload"
        using h unfolding len by (simp only: mult_less_cancel2) simp
      from rows_below [OF this good(4,3)] show ?thesis by simp
    qed
    ultimately have R: "R = h - 1" by simp
    have "w \<le> J"
    proof -
      have "length payload = Suc R * (4 * w + 1)"
        using R h len by simp
      with good(4) show ?thesis by (simp add: pix_start_def)
    qed
    with good(3) have "J = w" by simp
    with good(1,6) R show ?thesis by blast
  qed
qed

lemma group_of_four:
  assumes "n \<le> length xs"
  shows "map (\<lambda>k. xs ! (n + k)) [0..<min 4 (length xs - n)] = take 4 (drop n xs)"
  using assms by (intro nth_equalityI) simp_all

lemma neighbour_Pix:
  "r < length g \<Longrightarrow> j + 1 < length (g ! r) \<Longrightarrow> g ! r ! (j + 1) = Pix q \<Longrightarrow> k < length q
   \<Longrightarrow> neighbour g (int r) (int j) k = Some (q ! k)"
  by (simp add: neighbour_def element_nat element_nat_Suc)

lemma neighbour_outside: "r < 0 \<or> j < 0 \<Longrightarrow> neighbour g r j k = Some 0"
  by (simp add: neighbour_def)

text \<open>
  Claim C1: in a grid that \<open>reverseFiltering\<close> returns (for a positive width), every channel
  \<open>k\<close> of every pixel \<open>p\<close> in a row whose filter byte is 4 equals \<open>(x + pr) mod 256\<close>, where
  \<open>x\<close> is the byte of the payload for that channel and \<open>pr\<close> is chosen from the channels
  \<open>a\<close>, \<open>b\<close>, \<open>c\<close> of the left, the upper and the upper left neighbour in the grid (0 at the
  first column and the first row): with \<open>pp = a + b - c\<close>, \<open>pa = |pp - a|\<close>, \<open>pb = |pp - b|\<close>
  and \<open>pc = |pp - c|\<close>, it is \<open>a\<close> if \<open>pa \<le> pb\<close> and \<open>pa \<le> pc\<close>, else \<open>b\<close> if \<open>pb \<le> pc\<close>,
  else \<open>c\<close>; when \<open>pa = pb = pc\<close> it is \<open>a\<close>.
\<close>

theorem paeth_reconstruction:
  assumes w: "0 < w" and g: "reverseFiltering payload w = Inr g"
    and r: "r < length g" and f: "g ! r ! 0 = Num 4"
    and j: "j + 1 < length (g ! r)" and p: "g ! r ! (j + 1) = Pix p" and k: "k < length p"
  shows "\<exists>a b c. neighbour g (int r) (int j - 1) k = Some a
           \<and> neighbour g (int r - 1) (int j) k = Some b
           \<and> neighbour g (int r - 1) (int j - 1) k = Some c
           \<and> (let pp = a + b - c;
                   pa = \<bar>pp - a\<bar>;
                   pb = \<bar>pp - b\<bar>;
                   pc = \<bar>pp - c\<bar>;
                   pr = (if pa \<le> pb \<and> pa \<le> pc then a else if pb \<le> pc then b else c)
               in p ! k = (uint (payload ! (r * (4 * w + 1) + 1 + 4 * j + k)) + pr) mod 256
                  \<and> (pa = pb \<and> pb = pc \<longrightarrow> pr = a))"
proof -
  let ?array = "map uint payload"
  have bytes: "\<forall>v \<in> set ?array. 0 \<le> v \<and> v < 256"
  proof
    fix v assume "v \<in> set ?array"
    then obtain b :: "8 word" where "v = uint b" by auto
    then show "0 \<le> v \<and> v < 256"
      using uint_lt2p [of b] by simp
  qed
  from reverseFiltering_cases [OF w, of payload] g r
  obtain R J where J: "1 \<le> J" "J \<le> w"
    and last: "pix_start w R J \<le> length ?array + 4"
    and RW: "R * (4 * w + 1) < length ?array"
    and grid: "grid_ok ?array w g R J"
    and fbs: "\<forall>r \<le> R. uint (payload ! (r * (4 * w + 1))) \<in> {0, 1, 2, 3, 4}"
    by auto
  have ok: "\<forall>r \<le> R. ?array ! (r * (4 * w + 1)) \<in> {0, 1, 2, 3, 4}"
  proof (intro allI impI)
    fix r' assume r': "r' \<le> R"
    then have "r' * (4 * w + 1) \<le> R * (4 * w + 1)" by (rule mult_le_mono1)
    with RW have "?array ! (r' * (4 * w + 1)) = uint (payload ! (r' * (4 * w + 1)))"
      by simp
    with fbs r' show "?array ! (r' * (4 * w + 1)) \<in> {0, 1, 2, 3, 4}"
      by (simp only:)
  qed
  from grid r have rR: "r \<le> R" by (simp add: grid_ok_def)
  define n where "n = (if r < R then w else J)"
  from grid rR have row: "row_ok ?array w g r n"
    by (auto simp: grid_ok_def n_def)
  from row j have jn: "j < n" by (simp add: row_ok_def)
  then have pos: "j < (if r < R then w else J)" by (simp add: n_def)
  from row have len_r: "length (g ! r) = n + 1" by (simp add: row_ok_def)
  from row f have four: "?array ! (r * (4 * w + 1)) = 4" by (simp add: row_ok_def)
  from grid_cell [OF grid J(2) RW last bytes ok rR pos] p
  obtain pl pu pc where pl: "j > 0 \<Longrightarrow> g ! r ! j = Pix pl \<and> length pl = 4"
    and pu: "r > 0 \<Longrightarrow> g ! (r - 1) ! (j + 1) = Pix pu \<and> length pu = 4"
    and pc: "j > 0 \<and> r > 0 \<Longrightarrow> g ! (r - 1) ! j = Pix pc \<and> length pc = 4"
    and pv: "p = map (\<lambda>k. reconstruct (?array ! (r * (4 * w + 1)))
                            (?array ! (pix_start w r j + k))
                            (if j > 0 then pl ! k else 0)
                            (if r > 0 then pu ! k else 0)
                            (if j > 0 \<and> r > 0 then pc ! k else 0))
                     [0..<min 4 (length ?array - pix_start w r j)]"
    by auto
  from k have k4: "k < 4" and kl: "pix_start w r j + k < length payload"
    unfolding pv by auto
  let ?a = "if j > 0 then pl ! k else 0"
  let ?b = "if r > 0 then pu ! k else 0"
  let ?c = "if j > 0 \<and> r > 0 then pc ! k else 0"
  have up_len: "length (g ! (r - 1)) = w + 1" if "r > 0"
  proof -
    from that rR have "r - 1 < R" by simp
    with grid have "row_ok ?array w g (r - 1) w" by (simp add: grid_ok_def)
    then show ?thesis by (simp add: row_ok_def)
  qed
  from jn J have jw: "j < w" by (auto simp: n_def split: if_splits)
  have a: "neighbour g (int r) (int j - 1) k = Some ?a"
  proof (cases j)
    case 0
    then show ?thesis by (simp add: neighbour_outside)
  next
    case (Suc j')
    have "neighbour g (int r) (int j') k = Some (pl ! k)"
      using r j pl k4 unfolding Suc by (intro neighbour_Pix) simp_all
    then show ?thesis by (simp add: Suc)
  qed
  have b: "neighbour g (int r - 1) (int j) k = Some ?b"
  proof (cases r)
    case 0
    then show ?thesis by (simp add: neighbour_outside)
  next
    case (Suc r')
    have "neighbour g (int r') (int j) k = Some (pu ! k)"
      using r jw pu up_len k4 unfolding Suc by (intro neighbour_Pix) simp_all
    then show ?thesis by (simp add: Suc)
  qed
  have c: "neighbour g (int r - 1) (int j - 1) k = Some ?c"
  proof (cases "j > 0 \<and> r > 0")
    case False
    then show ?thesis by (auto simp: neighbour_outside)
  next
    case True
    then obtain r' j' where rj: "r = Suc r'" "j = Suc j'"
      by (cases r; cases j) auto
    have "neighbour g (int r') (int j') k = Some (pc ! k)"
      using r jw pc up_len k4 unfolding rj by (intro neighbour_Pix) simp_all
    then show ?thesis by (simp add: rj)
  qed
  have kn: "k < min 4 (length ?array - pix_start w r j)"
    using k unfolding pv by simp
  then have idx: "[0..<min 4 (length ?array - pix_start w r j)] ! k = k"
    by simp
  have "p ! k = reconstruct 4 (?array ! (pix_start w r j + k)) ?a ?b ?c"
    unfolding pv four using kn by (simp only: nth_map length_upt diff_zero idx)
  also have "\<dots> = (uint (payload ! (r * (4 * w + 1) + 1 + 4 * j + k)) + paeth ?a ?b ?c) mod 256"
    using kl by (simp add: reconstruct_def pix_start_def)
  finally have val: "p ! k =
      (uint (payload ! (r * (4 * w + 1) + 1 + 4 * j + k)) + paeth ?a ?b ?c) mod 256" .
  define a' b' c' where "a' = ?a" and "b' = ?b" and "c' = ?c"
  have nb: "neighbour g (int r) (int j - 1) k = Some a'"
    "neighbour g (int r - 1) (int j) k = Some b'"
    "neighbour g (int r - 1) (int j - 1) k = Some c'"
    using a b c unfolding a'_def b'_def c'_def by blast+
  have "p ! k = (uint (payload ! (r * (4 * w + 1) + 1 + 4 * j + k)) + paeth a' b' c') mod 256"
    using val unfolding a'_def b'_def c'_def .
  then have val': "p ! k = (uint (payload ! (r * (4 * w + 1) + 1 + 4 * j + k))
      + (if \<bar>a' + b' - c' - a'\<bar> \<le> \<bar>a' + b' - c' - b'\<bar>
            \<and> \<bar>a' + b' - c' - a'\<bar> \<le> \<bar>a' + b' - c' - c'\<bar> then a'
         else if \<bar>a' + b' - c' - b'\<bar> \<le> \<bar>a' + b' - c' - c'\<bar> then b' else c')) mod 256"
    unfolding paeth_def Let_def .
  have tie: "\<bar>a' + b' - c' - a'\<bar> = \<bar>a' + b' - c' - b'\<bar>
      \<and> \<bar>a' + b' - c' - b'\<bar> = \<bar>a' + b' - c' - c'\<bar> \<longrightarrow>
      (if \<bar>a' + b' - c' - a'\<bar> \<le> \<bar>a' + b' - c' - b'\<bar>
            \<and> \<bar>a' + b' - c' - a'\<bar> \<le> \<bar>a' + b' - c' - c'\<bar> then a'
       else if \<bar>a' + b' - c' - b'\<bar> \<le> \<bar>a' + b' - c' - c'\<bar> then b' else c') = a'"
    by (intro impI) (simp only: order_refl simp_thms if_True)
  show ?thesis
    unfolding Let_def using nb val' tie by blast
qed

theorem paeth_reconstruction_witness:
  "reverseFiltering [0, 7, 7, 7, 7, 7, 7, 7, 7, 4, 0, 0, 0, 0, 1, 1, 1, 1] 2
     = Inr [[Num 0, Pix [7, 7, 7, 7], Pix [7, 7, 7, 7]],
            [Num 4, Pix [7, 7, 7, 7], Pix [8, 8, 8, 8]]]
   \<and> (\<exists>a b c.
        neighbour [[Num 0, Pix [7, 7, 7, 7], Pix [7, 7, 7, 7]],
                   [Num 4, Pix [7, 7, 7, 7], Pix [8, 8, 8, 8]]] 1 0 0 = Some a
      \<and> neighbour [[Num 0, Pix [7, 7, 7, 7], Pix [7, 7, 7, 7]],
                   [Num 4, Pix [7, 7, 7, 7], Pix [8, 8, 8, 8]]] 0 1 0 = Some b
      \<and> neighbour [[Num 0, Pix [7, 7, 7, 7], Pix [7, 7, 7, 7]],
                   [Num 4, Pix [7, 7, 7, 7], Pix [8, 8, 8, 8]]] 0 0 0 = Some c
      \<and> a = 7 \<and> b = 7 \<and> c = 7 \<and> (8 :: int) = (1 + a) mod 256)"
proof -
  let ?g = "[[Num 0, Pix [7, 7, 7, 7], Pix [7, 7, 7, 7]],
             [Num 4, Pix [7, 7, 7, 7], Pix [8, 8, 8, 8]]]"
  have run: "reverseFiltering [0, 7, 7, 7, 7, 7, 7, 7, 7, 4, 0, 0, 0, 0, 1, 1, 1, 1] 2 = Inr ?g"
    by (simp add: reverseFiltering_def reverseFiltering_loop.simps start_line_def
          process_pixel_def element_def js_slice_def relative_index_def unfilter_def
          assign_def js_rem_def paeth_def)
  from paeth_reconstruction [OF _ run, of 1 1 "[8, 8, 8, 8]" 0]
  show ?thesis
    using run by (simp add: neighbour_def element_def)
qed

text \<open>
  With the filter byte 0 on every row the grid holds the payload: each pixel is its group of
  bytes, each row its scanline, and the rows in sequence are the whole payload, also when the
  payload ends inside a scanline.
\<close>

lemma filter_none_framed:
  assumes "0 < w" and "length payload = h * (4 * w + 1)"
    and "\<forall>k < h. payload ! (k * (4 * w + 1)) = 0"
  shows "reverseFiltering payload w =
           Inr (map (\<lambda>r. Num 0 #
                      map (\<lambda>j. Pix (map uint (take 4 (drop (r * (4 * w + 1) + 1 + 4 * j) payload))))
                          [0..<w])
                    [0..<h])"
proof (cases "h = 0")
  case True
  with assms(2) show ?thesis by (simp add: reverseFiltering_empty)
next
  case False
  then have h: "0 < h" by simp
  let ?array = "map uint payload"
  have fbs: "\<forall>k < h. uint (payload ! (k * (4 * w + 1))) \<in> {0, 1, 2, 3, 4}"
    using assms(3) by simp
  from framed_grid [OF assms(1) h assms(2) fbs] obtain g
    where g: "reverseFiltering payload w = Inr g" and grid: "grid_ok ?array w g (h - 1) w"
    by blast
  from grid h have lg: "length g = h" by (simp add: grid_ok_def)
  have bytes: "\<forall>v \<in> set ?array. 0 \<le> v \<and> v < 256"
  proof
    fix v assume "v \<in> set ?array"
    then obtain b :: "8 word" where "v = uint b" by auto
    then show "0 \<le> v \<and> v < 256"
      using uint_lt2p [of b] by simp
  qed
  have start: "k * (4 * w + 1) < length payload" if "k < h" for k
    using that unfolding assms(2) by (simp only: mult_less_cancel2) simp
  have zero: "?array ! (k * (4 * w + 1)) = 0" if "k < h" for k
    using assms(3) that start [OF that] by simp
  have last: "pix_start w (h - 1) w \<le> length ?array + 4"
  proof -
    have "pix_start w (h - 1) w = Suc (h - 1) * (4 * w + 1)"
      by (simp add: pix_start_def)
    with h assms(2) show ?thesis by simp
  qed
  have RW: "(h - 1) * (4 * w + 1) < length ?array"
    using start [of "h - 1"] h by simp
  have ok: "\<forall>r \<le> h - 1. ?array ! (r * (4 * w + 1)) \<in> {0, 1, 2, 3, 4}"
  proof (intro allI impI)
    fix r assume "r \<le> h - 1"
    with h have "r < h" by simp
    from zero [OF this] show "?array ! (r * (4 * w + 1)) \<in> {0, 1, 2, 3, 4}" by simp
  qed
  have row: "g ! r = Num 0 #
      map (\<lambda>j. Pix (map uint (take 4 (drop (r * (4 * w + 1) + 1 + 4 * j) payload)))) [0..<w]"
    if r: "r < h" for r
  proof (rule nth_equalityI)
    from grid r have rok: "row_ok ?array w g r w"
      by (cases "r = h - 1") (auto simp: grid_ok_def)
    then show "length (g ! r) = length (Num 0 #
        map (\<lambda>j. Pix (map uint (take 4 (drop (r * (4 * w + 1) + 1 + 4 * j) payload)))) [0..<w])"
      by (simp add: row_ok_def)
    fix i assume "i < length (g ! r)"
    with rok have i: "i < w + 1" by (simp add: row_ok_def)
    show "g ! r ! i = (Num 0 #
        map (\<lambda>j. Pix (map uint (take 4 (drop (r * (4 * w + 1) + 1 + 4 * j) payload)))) [0..<w]) ! i"
    proof (cases i)
      case 0
      with rok zero [OF r] show ?thesis by (simp add: row_ok_def)
    next
      case (Suc j)
      with i have j: "j < w" by simp
      from r h have rle: "r \<le> h - 1" by simp
      from j have pos: "j < (if r < h - 1 then w else w)" by simp
      from grid_cell [OF grid order_refl RW last bytes ok rle pos]
      obtain p pl pu pc where p: "g ! r ! (j + 1) = Pix p"
        and pv: "p = map (\<lambda>k. reconstruct (?array ! (r * (4 * w + 1)))
                            (?array ! (pix_start w r j + k))
                            (if j > 0 then pl ! k else 0)
                            (if r > 0 then pu ! k else 0)
                            (if j > 0 \<and> r > 0 then pc ! k else 0))
                       [0..<min 4 (length ?array - pix_start w r j)]"
        by blast
      have none: "reconstruct (?array ! (r * (4 * w + 1))) x a b c = x" for x a b c
        unfolding zero [OF r] by (simp add: reconstruct_def)
      have fits: "pix_start w r j \<le> length ?array"
      proof -
        from r have "Suc r * (4 * w + 1) \<le> h * (4 * w + 1)"
          by (intro mult_le_mono1) simp
        with j show ?thesis by (simp add: pix_start_def assms(2))
      qed
      from pv have "p = map (\<lambda>k. ?array ! (pix_start w r j + k))
                       [0..<min 4 (length ?array - pix_start w r j)]"
        unfolding none .
      then have "p = take 4 (drop (pix_start w r j) ?array)"
        by (simp only: group_of_four [OF fits])
      then have "p = map uint (take 4 (drop (r * (4 * w + 1) + 1 + 4 * j) payload))"
        by (simp add: pix_start_def take_map drop_map)
      with p Suc j show ?thesis by simp
    qed
  qed
  have "g = map (\<lambda>r. Num 0 #
      map (\<lambda>j. Pix (map uint (take 4 (drop (r * (4 * w + 1) + 1 + 4 * j) payload)))) [0..<w])
      [0..<h]"
    using lg row by (intro nth_equalityI) simp_all
  with g show ?thesis by simp
qed

lemma concat_groups:
  "concat (map (\<lambda>j. take 4 (drop (s + 4 * j) xs)) [0..<m]) = take (4 * m) (drop s xs)"
proof (induction m)
  case 0
  then show ?case by simp
next
  case (Suc m)
  have "take (4 * Suc m) (drop s xs) = take (4 * m + 4) (drop s xs)"
    by (simp add: add.commute)
  also have "\<dots> = take (4 * m) (drop s xs) @ take 4 (drop (4 * m) (drop s xs))"
    by (rule take_add)
  finally show ?case
    using Suc by (simp add: add.commute)
qed

lemma concat_scanlines:
  "concat (map (\<lambda>r. take n (drop (r * n) xs)) [0..<R]) = take (R * n) xs"
proof (induction R)
  case 0
  then show ?case by simp
next
  case (Suc R)
  have "take (Suc R * n) xs = take (R * n + n) xs"
    by (simp add: add.commute)
  also have "\<dots> = take (R * n) xs @ take n (drop (R * n) xs)"
    by (rule take_add)
  finally show ?case
    using Suc by simp
qed

lemma filter_none_rows:
  assumes w: "0 < w" and grid: "grid_ok array w g R J" and J: "1 \<le> J" "J \<le> w"
    and RW: "R * (4 * w + 1) < length array"
    and last: "pix_start w R J \<le> length array + 4"
    and bytes: "\<forall>v \<in> set array. 0 \<le> v \<and> v < 256"
    and zero: "\<forall>r \<le> R. array ! (r * (4 * w + 1)) = 0"
    and r: "r \<le> R"
  shows "g ! r = Num 0 # map (\<lambda>j. Pix (take 4 (drop (pix_start w r j) array)))
                            [0..<(if r < R then w else J)]"
proof (rule nth_equalityI)
  define n where "n = (if r < R then w else J)"
  from grid r have rok: "row_ok array w g r n"
    by (auto simp: grid_ok_def n_def)
  then show "length (g ! r) = length (Num 0 #
      map (\<lambda>j. Pix (take 4 (drop (pix_start w r j) array))) [0..<(if r < R then w else J)])"
    by (simp add: row_ok_def n_def)
  have ok: "\<forall>r \<le> R. array ! (r * (4 * w + 1)) \<in> {0, 1, 2, 3, 4}"
    using zero by simp
  fix i assume "i < length (g ! r)"
  with rok have i: "i < n + 1" by (simp add: row_ok_def)
  show "g ! r ! i = (Num 0 #
      map (\<lambda>j. Pix (take 4 (drop (pix_start w r j) array))) [0..<(if r < R then w else J)]) ! i"
  proof (cases i)
    case 0
    with rok zero r show ?thesis by (simp add: row_ok_def)
  next
    case (Suc j)
    with i have j: "j < (if r < R then w else J)" by (simp add: n_def)
    from grid_cell [OF grid J(2) RW last bytes ok r j]
    obtain p pl pu pc where p: "g ! r ! (j + 1) = Pix p"
      and pv: "p = map (\<lambda>k. reconstruct (array ! (r * (4 * w + 1)))
                          (array ! (pix_start w r j + k))
                          (if j > 0 then pl ! k else 0)
                          (if r > 0 then pu ! k else 0)
                          (if j > 0 \<and> r > 0 then pc ! k else 0))
                     [0..<min 4 (length array - pix_start w r j)]"
      by blast
    have none: "reconstruct (array ! (r * (4 * w + 1))) x a b c = x" for x a b c
      using zero r by (simp add: reconstruct_def)
    have fits: "pix_start w r j \<le> length array"
    proof (cases "r < R")
      case True
      then have "Suc r * (4 * w + 1) \<le> R * (4 * w + 1)"
        by (intro mult_le_mono1) simp
      moreover from True j have "pix_start w r j \<le> Suc r * (4 * w + 1)"
        by (simp add: pix_start_def)
      ultimately show ?thesis using RW by simp
    next
      case False
      with r j have "r = R" "Suc j \<le> J" by simp_all
      then have "pix_start w r j + 4 \<le> pix_start w R J"
        by (simp add: pix_start_def)
      with last show ?thesis by simp
    qed
    from pv have "p = map (\<lambda>k. array ! (pix_start w r j + k))
                     [0..<min 4 (length array - pix_start w r j)]"
      unfolding none .
    then have "p = take 4 (drop (pix_start w r j) array)"
      by (simp only: group_of_four [OF fits])
    with p Suc j show ?thesis by simp
  qed
qed

lemma filter_none_bytes:
  assumes w: "0 < w" and grid: "grid_ok array w g R J" and J: "1 \<le> J" "J \<le> w"
    and RW: "R * (4 * w + 1) < length array"
    and cover: "length array \<le> pix_start w R J"
    and last: "pix_start w R J \<le> length array + 4"
    and bytes: "\<forall>v \<in> set array. 0 \<le> v \<and> v < 256"
    and zero: "\<forall>r \<le> R. array ! (r * (4 * w + 1)) = 0"
  shows "grid_bytes g = array"
proof -
  let ?W = "4 * w + 1"
  note rows = filter_none_rows [OF w grid J RW last bytes zero]
  have start: "r * ?W < length array" if "r \<le> R" for r
  proof -
    from that have "r * ?W \<le> R * ?W" by (rule mult_le_mono1)
    with RW show ?thesis by simp
  qed
  have row_bytes: "concat (map cell_bytes (g ! r))
      = take (1 + 4 * (if r < R then w else J)) (drop (r * ?W) array)" if r: "r \<le> R" for r
  proof -
    let ?n = "if r < R then w else J"
    have "concat (map cell_bytes (g ! r))
        = 0 # concat (map (\<lambda>j. take 4 (drop (r * ?W + 1 + 4 * j) array)) [0..<?n])"
      unfolding rows [OF r] by (simp add: comp_def pix_start_def)
    also have "\<dots> = 0 # take (4 * ?n) (drop (r * ?W + 1) array)"
      by (simp only: concat_groups)
    also have "\<dots> = take (1 + 4 * ?n) (drop (r * ?W) array)"
    proof -
      have "drop (r * ?W) array = array ! (r * ?W) # drop (Suc (r * ?W)) array"
        using start [OF r] by (simp add: Cons_nth_drop_Suc)
      with zero r show ?thesis by simp
    qed
    finally show ?thesis .
  qed
  from grid have lg: "length g = R + 1" by (simp add: grid_ok_def)
  have "map (\<lambda>cells. concat (map cell_bytes cells)) g
      = map (\<lambda>r. concat (map cell_bytes (g ! r))) [0..<R + 1]"
    by (rule nth_equalityI) (simp_all add: lg del: upt_Suc)
  then have "grid_bytes g = concat (map (\<lambda>r. concat (map cell_bytes (g ! r))) [0..<R + 1])"
    unfolding grid_bytes_def by (simp only:)
  also have "\<dots> = concat (map (\<lambda>r. take ?W (drop (r * ?W) array)) [0..<R])
      @ take (1 + 4 * J) (drop (R * ?W) array)"
  proof -
    have full: "map (\<lambda>r. concat (map cell_bytes (g ! r))) [0..<R]
        = map (\<lambda>r. take ?W (drop (r * ?W) array)) [0..<R]"
      by (rule map_cong [OF refl]) (simp add: row_bytes add.commute)
    have part: "concat (map cell_bytes (g ! R)) = take (1 + 4 * J) (drop (R * ?W) array)"
      using row_bytes [of R] by simp
    have "concat (map (\<lambda>r. concat (map cell_bytes (g ! r))) [0..<R + 1])
        = concat (map (\<lambda>r. concat (map cell_bytes (g ! r))) [0..<R])
          @ concat (map cell_bytes (g ! R))"
      by simp
    then show ?thesis
      unfolding full part .
  qed
  also have "\<dots> = take (R * ?W) array @ drop (R * ?W) array"
  proof -
    have "length (drop (R * ?W) array) \<le> 1 + 4 * J"
      using cover by (simp add: pix_start_def)
    then have "take (1 + 4 * J) (drop (R * ?W) array) = drop (R * ?W) array"
      by (rule take_all)
    then show ?thesis by (simp only: concat_scanlines)
  qed
  finally show ?thesis by simp
qed

text \<open>
  Claim C2: for a positive width \<open>w\<close> and every payload in which the filter byte of every
  scanline (the byte at each multiple of \<open>4 * w + 1\<close> inside the payload) is 0,
  \<open>reverseFiltering\<close> returns a grid whose bytes, row by row, are the bytes of the payload;
  each row is the filter byte 0 followed by pixels; and when the payload consists of \<open>h\<close>
  whole scanlines, the grid is the payload cut into \<open>h\<close> rows, each the filter byte followed
  by the \<open>w\<close> groups of four bytes of its scanline. The witness is the scenario of the
  specification: width 2, one row, the pixels \<open>[10, 20, 30, 255]\<close> and \<open>[40, 50, 60, 255]\<close>.
\<close>

theorem filter_none_identity:
  assumes w: "0 < w"
    and zero: "\<forall>k. k * (4 * w + 1) < length payload \<longrightarrow> payload ! (k * (4 * w + 1)) = 0"
  shows "\<exists>g. reverseFiltering payload w = Inr g
           \<and> grid_bytes g = map uint payload
           \<and> (\<forall>cells \<in> set g. \<exists>ps. cells = Num 0 # map Pix ps)
           \<and> (\<forall>h. length payload = h * (4 * w + 1) \<longrightarrow>
                 g = map (\<lambda>r. Num 0 #
                           map (\<lambda>j. Pix (map uint
                                  (take 4 (drop (r * (4 * w + 1) + 1 + 4 * j) payload))))
                               [0..<w])
                         [0..<h])"
proof -
  let ?array = "map uint payload"
  have framed: "reverseFiltering payload w =
      Inr (map (\<lambda>r. Num 0 #
                 map (\<lambda>j. Pix (map uint (take 4 (drop (r * (4 * w + 1) + 1 + 4 * j) payload))))
                     [0..<w])
               [0..<h])" if len: "length payload = h * (4 * w + 1)" for h
  proof (rule filter_none_framed [OF w len], intro allI impI)
    fix k assume "k < h"
    then have "k * (4 * w + 1) < length payload"
      unfolding len by (simp only: mult_less_cancel2) simp
    with zero show "payload ! (k * (4 * w + 1)) = 0" by blast
  qed
  from reverseFiltering_cases [OF w, of payload] consider
      (bad) k where "k * (4 * w + 1) < length payload"
        "uint (payload ! (k * (4 * w + 1))) \<notin> {0, 1, 2, 3, 4}"
    | (empty) "payload = []" "reverseFiltering payload w = Inr []"
    | (good) g R J where "reverseFiltering payload w = Inr g" "1 \<le> J" "J \<le> w"
        "length payload \<le> pix_start w R J" "pix_start w R J \<le> length payload + 4"
        "R * (4 * w + 1) < length payload" "grid_ok ?array w g R J"
    by blast
  then show ?thesis
  proof cases
    case bad
    with zero show ?thesis by simp
  next
    case empty
    then show ?thesis by (simp add: grid_bytes_def)
  next
    case good
    have bytes: "\<forall>v \<in> set ?array. 0 \<le> v \<and> v < 256"
    proof
      fix v assume "v \<in> set ?array"
      then obtain b :: "8 word" where "v = uint b" by auto
      then show "0 \<le> v \<and> v < 256"
        using uint_lt2p [of b] by simp
    qed
    have z: "\<forall>r \<le> R. ?array ! (r * (4 * w + 1)) = 0"
    proof (intro allI impI)
      fix r assume "r \<le> R"
      then have "r * (4 * w + 1) \<le> R * (4 * w + 1)" by (rule mult_le_mono1)
      with good(6) have "r * (4 * w + 1) < length payload" by simp
      with zero show "?array ! (r * (4 * w + 1)) = 0" by simp
    qed
    have RW: "R * (4 * w + 1) < length ?array" and cover: "length ?array \<le> pix_start w R J"
      and last: "pix_start w R J \<le> length ?array + 4"
      using good(4-6) by simp_all
    have "grid_bytes g = ?array"
      using w good(7,2,3) RW cover last bytes z by (rule filter_none_bytes)
    moreover have "\<exists>ps. cells = Num 0 # map Pix ps" if "cells \<in> set g" for cells
    proof -
      from that obtain r where "r < length g" and c: "cells = g ! r"
        by (auto simp: in_set_conv_nth)
      moreover from good(7) have "length g = R + 1" by (simp add: grid_ok_def)
      ultimately have r: "r \<le> R" by simp
      have "g ! r = Num 0 # map Pix (map (\<lambda>j. take 4 (drop (pix_start w r j) ?array))
          [0..<(if r < R then w else J)])"
        using filter_none_rows [OF w good(7,2,3) RW last bytes z r] by (simp add: comp_def)
      with c show ?thesis by blast
    qed
    ultimately show ?thesis
      using good(1) framed by auto
  qed
qed

theorem filter_none_identity_witness:
  "reverseFiltering [0, 10, 20, 30, 255, 40, 50, 60, 255] 2
   = Inr [[Num 0, Pix [10, 20, 30, 255], Pix [40, 50, 60, 255]]]"
proof -
  have "\<forall>k. k * (4 * 2 + 1) < length [0, 10, 20, 30, 255, 40, 50, 60, 255 :: 8 word]
      \<longrightarrow> [0, 10, 20, 30, 255, 40, 50, 60, 255 :: 8 word] ! (k * (4 * 2 + 1)) = 0"
  proof (intro allI impI)
    fix k :: nat
    assume "k * (4 * 2 + 1) < length [0, 10, 20, 30, 255, 40, 50, 60, 255 :: 8 word]"
    then have "k * 9 < 9" by simp
    then have "k = 0" by arith
    then show "[0, 10, 20, 30, 255, 40, 50, 60, 255 :: 8 word] ! (k * (4 * 2 + 1)) = 0"
      by simp
  qed
  from filter_none_identity [OF _ this]
  obtain g where g: "reverseFiltering [0, 10, 20, 30, 255, 40, 50, 60, 255] 2 = Inr g"
    and "\<forall>h. length [0, 10, 20, 30, 255, 40, 50, 60, 255 :: 8 word] = h * (4 * 2 + 1) \<longrightarrow>
        g = map (\<lambda>r. Num 0 #
                  map (\<lambda>j. Pix (map uint (take 4 (drop (r * (4 * 2 + 1) + 1 + 4 * j)
                                    [0, 10, 20, 30, 255, 40, 50, 60, 255 :: 8 word]))))
                      [0..<2])
                [0..<h]"
    by auto
  from this(2) [rule_format, of 1] have "g = [[Num 0, Pix [10, 20, 30, 255], Pix [40, 50, 60, 255]]]"
    by (simp add: upt_rec)
  with g show ?thesis by simp
qed

text \<open>
  Claim C3: for \<open>w > 0\<close>, \<open>h > 0\<close> and a payload of \<open>h * (4 * w + 1)\<close> bytes whose filter
  bytes are all in 0..4, \<open>reverseFiltering\<close> returns a grid of exactly \<open>h\<close> rows; every row has
  \<open>1 + w\<close> entries, the filter byte followed by \<open>w\<close> pixels of four channels, and every
  channel value lies between 0 and 255.
\<close>

theorem defiltered_grid_shape:
  assumes "0 < w" and "0 < h" and "length payload = h * (4 * w + 1)"
    and "\<forall>k < h. uint (payload ! (k * (4 * w + 1))) \<in> {0, 1, 2, 3, 4}"
  shows "\<exists>g. reverseFiltering payload w = Inr g \<and> length g = h
           \<and> (\<forall>r < h. length (g ! r) = 1 + w
                  \<and> g ! r ! 0 = Num (uint (payload ! (r * (4 * w + 1))))
                  \<and> (\<forall>j < w. \<exists>p. g ! r ! (j + 1) = Pix p \<and> length p = 4
                                  \<and> (\<forall>v \<in> set p. 0 \<le> v \<and> v \<le> 255)))"
proof -
  let ?array = "map uint payload"
  from framed_grid [OF assms] obtain g where g: "reverseFiltering payload w = Inr g"
    and grid: "grid_ok ?array w g (h - 1) w"
    by blast
  from grid assms(2) have lg: "length g = h" by (simp add: grid_ok_def)
  have "length (g ! r) = 1 + w \<and> g ! r ! 0 = Num (uint (payload ! (r * (4 * w + 1))))
      \<and> (\<forall>j < w. \<exists>p. g ! r ! (j + 1) = Pix p \<and> length p = 4
                      \<and> (\<forall>v \<in> set p. 0 \<le> v \<and> v \<le> 255))" if r: "r < h" for r
  proof -
    from grid r have row: "row_ok ?array w g r w"
      by (cases "r = h - 1") (auto simp: grid_ok_def)
    from r have "Suc r * (4 * w + 1) \<le> h * (4 * w + 1)"
      by (intro mult_le_mono1) simp
    then have next_row: "Suc r * (4 * w + 1) \<le> length payload"
      by (simp only: assms(3))
    then have "r * (4 * w + 1) < length payload" by simp
    then have hd: "?array ! (r * (4 * w + 1)) = uint (payload ! (r * (4 * w + 1)))"
      by simp
    have "\<exists>p. g ! r ! (j + 1) = Pix p \<and> length p = 4 \<and> (\<forall>v \<in> set p. 0 \<le> v \<and> v \<le> 255)"
      if j: "j < w" for j
    proof -
      from row j have "cell_ok ?array w g r j" by (simp add: row_ok_def)
      moreover have "pix_start w r j + 4 \<le> length ?array"
        using next_row j by (simp add: pix_start_def)
      ultimately show ?thesis
        using cell_full [of ?array w g r j] by fastforce
    qed
    with row hd show ?thesis by (simp add: row_ok_def)
  qed
  with g lg show ?thesis by blast
qed

theorem defiltered_grid_shape_witness:
  "\<exists>g. reverseFiltering [1, 10, 20, 30, 255, 40, 50, 60, 255] 2 = Inr g \<and> length g = 1
      \<and> length (g ! 0) = 3 \<and> g ! 0 ! 0 = Num 1"
  using defiltered_grid_shape [of 2 1 "[1, 10, 20, 30, 255, 40, 50, 60, 255]"]
  by (auto simp: numeral_3_eq_3)

text \<open>
  Claim C4: for a positive width, \<open>reverseFiltering\<close> fails with \<open>UnexpectedFilterByte\<close>, and
  so returns no grid, exactly when the first byte of some scanline (the byte at a multiple of
  \<open>4 * w + 1\<close> inside the payload) is not in 0..4; when all of them are in 0..4 it returns a
  grid.
\<close>

theorem unexpected_filter_byte:
  assumes "0 < w"
  shows "((reverseFiltering payload w = Inl UnexpectedFilterByte) =
            (\<exists>k. k * (4 * w + 1) < length payload
                 \<and> uint (payload ! (k * (4 * w + 1))) \<notin> {0, 1, 2, 3, 4}))
       \<and> ((\<forall>k. k * (4 * w + 1) < length payload
                 \<longrightarrow> uint (payload ! (k * (4 * w + 1))) \<in> {0, 1, 2, 3, 4})
            \<longrightarrow> (\<exists>g. reverseFiltering payload w = Inr g))"
proof -
  from reverseFiltering_cases [OF assms, of payload] consider
      (bad) "\<exists>k. k * (4 * w + 1) < length payload
                 \<and> uint (payload ! (k * (4 * w + 1))) \<notin> {0, 1, 2, 3, 4}"
        "reverseFiltering payload w = Inl UnexpectedFilterByte"
    | (empty) "payload = []" "reverseFiltering payload w = Inr []"
    | (good) g R J where "reverseFiltering payload w = Inr g" "J \<le> w"
        "length payload \<le> pix_start w R J"
        "\<forall>r \<le> R. uint (payload ! (r * (4 * w + 1))) \<in> {0, 1, 2, 3, 4}"
    by blast
  then show ?thesis
  proof cases
    case bad
    then show ?thesis by blast
  next
    case empty
    then show ?thesis by simp
  next
    case good
    have "uint (payload ! (k * (4 * w + 1))) \<in> {0, 1, 2, 3, 4}"
      if "k * (4 * w + 1) < length payload" for k
      using good(4) rows_below [OF that good(3,2)] by blast
    with good(1) show ?thesis by auto
  qed
qed

theorem unexpected_filter_byte_witness:
  "reverseFiltering [0, 10, 20, 30, 255, 40, 50, 60, 255, 5] 2 = Inl UnexpectedFilterByte"
proof -
  have "\<exists>k. k * (4 * 2 + 1) < length [0, 10, 20, 30, 255, 40, 50, 60, 255, 5 :: 8 word]
      \<and> uint ([0, 10, 20, 30, 255, 40, 50, 60, 255, 5 :: 8 word] ! (k * (4 * 2 + 1)))
        \<notin> {0, 1, 2, 3, 4}"
    by (rule exI [of _ 1]) simp
  with unexpected_filter_byte [of 2 "[0, 10, 20, 30, 255, 40, 50, 60, 255, 5]"]
  show ?thesis by simp
qed

subsection \<open>subImage\<close>

text \<open>
  On integers the arithmetic of the method is the one of the integers as long as the sums
  stay below \<open>2 ^ 53\<close> in magnitude, and \<^verbatim>\<open>slice\<close> and the read of a row are the ones on
  integer indices.
\<close>

lemma to_integer_of_int: "to_integer (of_int k) = k"
  by (simp add: to_integer_def)

lemma slice_numbers_int:
  "slice_numbers r (Finite (of_int a)) (Finite (of_int b)) = js_slice r a b"
  by (simp add: slice_numbers_def js_slice_def to_integer_of_int)

lemma js_add_int:
  "\<bar>a + b\<bar> < 2 ^ 53 \<Longrightarrow> js_add (Finite (of_int a)) (Finite (of_int b)) = Finite (of_int (a + b))"
  using fl_int [of "a + b"] by simp

lemma js_add_one:
  "\<bar>a + 1\<bar> < 2 ^ 53 \<Longrightarrow> js_add (Finite (of_int a)) (Finite 1) = Finite (of_int (a + 1))"
  using js_add_int [of a 1] by simp

lemma element_at_int:
  "element_at xs (Finite (of_int k)) = (if 0 \<le> k \<and> k < 4294967295 then element xs k else None)"
  by simp

text \<open>
  The loop on integer arguments, from row \<open>k\<close> up to the bound \<open>b\<close>, on an array of
  fewer than \<open>2 ^ 32\<close> rows: it throws as soon as a row index lies outside the grid, and
  collects one slice for each row otherwise.
\<close>

lemma subImage_loop_rows:
  assumes "\<bar>xm + 1\<bar> < 2 ^ 53" and "\<bar>xm + 1 + tw\<bar> < 2 ^ 53" and "length rows \<le> 4294967295"
  shows "subImage_loop rows (Finite (of_int xm)) (Finite (of_int tw)) (Finite (of_int b))
           (Finite (of_int k)) acc =
     (if k < b \<and> (k < 0 \<or> int (length rows) < b) then Inl TypeError
      else Inr (acc @ map (\<lambda>r. Slice (js_slice r (xm + 1) (xm + 1 + tw)))
                        (take (nat (b - k)) (drop (nat k) rows))))"
proof (induction "nat (b - k)" arbitrary: k acc)
  case 0
  then have "\<not> k < b" by simp
  then show ?case
    by (subst subImage_loop.simps) simp
next
  case (Suc n)
  then have kb: "k < b" and n: "n = nat (b - (k + 1))" by linarith+
  show ?case
  proof (cases "0 \<le> k \<and> nat k < length rows")
    case False
    then have "element rows k = None" by (simp add: element_def)
    moreover from False kb have "k < 0 \<or> int (length rows) < b" by linarith
    ultimately show ?thesis using kb
      by (subst subImage_loop.simps) (simp add: element_at_int)
  next
    case True
    then have el: "element rows k = Some (rows ! nat k)" by (simp add: element_def)
    from True assms(3) have k: "0 \<le> k" "k < 4294967295" by linarith+
    have start: "js_add (Finite (of_int xm)) (Finite 1) = Finite (of_int (xm + 1))"
      using assms(1) by (rule js_add_one)
    have stop: "js_add (Finite (of_int (xm + 1))) (Finite (of_int tw))
        = Finite (of_int (xm + 1 + tw))"
      using assms(2) by (rule js_add_int)
    have inc: "js_add (Finite (of_int k)) (Finite 1) = Finite (of_int (k + 1))"
      using k by (intro js_add_one) simp
    have step: "subImage_loop rows (Finite (of_int xm)) (Finite (of_int tw)) (Finite (of_int b))
          (Finite (of_int k)) acc =
        subImage_loop rows (Finite (of_int xm)) (Finite (of_int tw)) (Finite (of_int b))
          (Finite (of_int (k + 1)))
          (acc @ [Slice (js_slice (rows ! nat k) (xm + 1) (xm + 1 + tw))])"
      using kb el k
      by (subst subImage_loop.simps)
         (simp only: element_at_int start stop inc slice_numbers_int, simp)
    have tk: "take (nat (b - k)) (drop (nat k) rows) =
        rows ! nat k # take (nat (b - (k + 1))) (drop (nat (k + 1)) rows)"
    proof -
      have "drop (nat k) rows = rows ! nat k # drop (Suc (nat k)) rows"
        using True by (simp add: Cons_nth_drop_Suc)
      moreover have "nat (b - k) = Suc (nat (b - (k + 1)))" using kb by linarith
      moreover have "nat (k + 1) = Suc (nat k)" using True by linarith
      ultimately show ?thesis by simp
    qed
    show ?thesis
      unfolding step Suc.hyps(1) [OF n] tk using True kb by auto
  qed
qed

text \<open>The whole method on an array grid, an integer tile size and integer margins.\<close>

lemma subImage_integers:
  assumes "0 < tw" "0 < th"
    and "\<bar>xm + 1\<bar> < 2 ^ 53" and "\<bar>xm + 1 + tw\<bar> < 2 ^ 53" and "\<bar>th + ym\<bar> < 2 ^ 53"
    and "length rows \<le> 4294967295"
  shows "subImage (ArrayOf rows) (Tile (Number (Finite (of_int tw))) (Number (Finite (of_int th))))
           (Margins (Number (Finite (of_int xm))) (Number (Finite (of_int ym)))) =
         (if ym < 0 \<or> int (length rows) < ym + th then Inl (SubImageExtractionError TypeError)
          else Inr (Scalar 0 # map (\<lambda>r. Slice (js_slice r (xm + 1) (xm + 1 + tw)))
                                 (take (nat th) (drop (nat ym) rows))))"
proof -
  have bound: "js_add (Finite (of_int th)) (Finite (of_int ym)) = Finite (of_int (th + ym))"
    using assms(5) by (rule js_add_int)
  have tile: "tile_numbers (Tile (Number (Finite (of_int tw))) (Number (Finite (of_int th))))
      = Inr (Finite (of_int tw), Finite (of_int th))"
    using assms(1,2) by simp
  have margins: "margin_numbers (Margins (Number (Finite (of_int xm))) (Number (Finite (of_int ym))))
      = Inr (Finite (of_int xm), Finite (of_int ym))"
    by simp
  have loop: "subImage_loop rows (Finite (of_int xm)) (Finite (of_int tw))
        (js_add (Finite (of_int th)) (Finite (of_int ym))) (Finite (of_int ym)) [Scalar 0] =
      (if ym < th + ym \<and> (ym < 0 \<or> int (length rows) < th + ym) then Inl TypeError
       else Inr ([Scalar 0] @ map (\<lambda>r. Slice (js_slice r (xm + 1) (xm + 1 + tw)))
                         (take (nat (th + ym - ym)) (drop (nat ym) rows))))"
    unfolding bound by (rule subImage_loop_rows [OF assms(3,4,6)])
  have "subImage (ArrayOf rows) (Tile (Number (Finite (of_int tw))) (Number (Finite (of_int th))))
           (Margins (Number (Finite (of_int xm))) (Number (Finite (of_int ym)))) =
        (case subImage_loop rows (Finite (of_int xm)) (Finite (of_int tw))
                (js_add (Finite (of_int th)) (Finite (of_int ym))) (Finite (of_int ym))
                [Scalar 0] of
           Inl e \<Rightarrow> Inl (SubImageExtractionError e)
         | Inr sub \<Rightarrow> Inr sub)"
    by (simp only: subImage_def tile margins grid_arg.case sum.case prod.case)
  then show ?thesis
    unfolding loop using assms(1,2) by (auto simp: algebra_simps)
qed

text \<open>
  Beyond \<open>2 ^ 53\<close> the sums round. With \<^verbatim>\<open>yMargin\<close> \<open>= 2 ^ 53\<close> and a tile height of 1
  the bound \<^verbatim>\<open>tileHeight + yMargin\<close> is the double nearest to \<open>2 ^ 53 + 1\<close>, which is
  \<open>2 ^ 53\<close> again: the loop does not run, and the method returns the scalar alone for
  every grid. The statements on integers below are therefore stated for magnitudes below
  \<open>2 ^ 52\<close>.
\<close>

lemma fl_tie_at_2_53: "fl 9007199254740993 = Finite 9007199254740992"
proof -
  have "(2 :: real) powr of_int 53 = 2 ^ 53" "(2 :: real) powr (of_int 53 + 1) = 2 ^ 54"
    by (simp_all add: powr_realpow [of 2, symmetric] del: powr_realpow)
  then have "\<lfloor>log 2 (9007199254740993 :: real)\<rfloor> = 53"
    by (subst floor_log_eq_powr_iff) simp_all
  moreover have "(2 :: real) powr 1 = 2" by simp
  ultimately show ?thesis
    by (simp add: fl_def round_half_even_def Let_def)
qed

lemma rounded_loop_bound:
  "subImage (ArrayOf rows) (Tile (Number (Finite 1)) (Number (Finite 1)))
     (Margins (Number (Finite 0)) (Number (Finite 9007199254740992))) = Inr [Scalar 0]"
  by (simp add: subImage_def fl_tie_at_2_53 subImage_loop.simps)

text \<open>
  Claim C7, as stated: whenever the requested rows or columns extend past the grid
  (\<open>tileHeight + yMargin\<close> beyond the row count, or \<open>xMargin + tileWidth\<close> beyond a row's
  pixel count), \<open>subImage\<close> fails with the wrapped extraction error and never returns a
  truncated sub-grid. This fails for columns: on a row of three pixels, a tile of width 2 at
  \<open>xMargin = 2\<close> asks for the pixels 2 and 3 (counting from 0); the call returns a row that
  holds the third pixel only, and throws nothing.
\<close>

theorem subImage_columns_truncated:
  "subImage (ArrayOf [[Num 0, Pix [1, 1, 1, 255], Pix [2, 2, 2, 255], Pix [3, 3, 3, 255]]])
     (Tile (Number (Finite 2)) (Number (Finite 1))) (Margins (Number (Finite 2)) (Number (Finite 0)))
   = Inr [Scalar 0, Slice [Pix [3, 3, 3, 255]]]"
  using subImage_integers [of 2 1 2 0
      "[[Num 0, Pix [1, 1, 1, 255], Pix [2, 2, 2, 255], Pix [3, 3, 3, 255]]]"]
  by (simp add: js_slice_def relative_index_def)

text \<open>
  Claim C7, amended: on an array grid (of fewer than \<open>2 ^ 32\<close> rows, as every array), with
  a positive integer tile size and integer margins, all below \<open>2 ^ 52\<close> in magnitude,
  \<open>subImage\<close> fails with \<open>SubImageExtractionError\<close>, wrapping the \<open>TypeError\<close> of the
  missing row, whenever the requested rows leave the grid (\<open>yMargin < 0\<close> or
  \<open>yMargin + tileHeight\<close> above the row count). When the rows are in range and
  \<open>xMargin \<ge> 0\<close> it returns the scalar 0 followed, for each requested row, by the
  \<open>tileWidth\<close> entries behind position \<open>xMargin + 1\<close>, or by as many of them as the row
  has: columns past the end of a row are cut off without an error.
\<close>

theorem subImage_row_bounds:
  assumes "0 < tw" "0 < th"
    and "tw < 2 ^ 52" "th < 2 ^ 52" "\<bar>xm\<bar> < 2 ^ 52" "\<bar>ym\<bar> < 2 ^ 52"
    and "length rows < 2 ^ 32"
  shows "(ym < 0 \<or> int (length rows) < ym + th \<longrightarrow>
            subImage (ArrayOf rows) (Tile (Number (Finite (of_int tw))) (Number (Finite (of_int th))))
              (Margins (Number (Finite (of_int xm))) (Number (Finite (of_int ym))))
            = Inl (SubImageExtractionError TypeError))
       \<and> (0 \<le> ym \<and> ym + th \<le> int (length rows) \<and> 0 \<le> xm \<longrightarrow>
            subImage (ArrayOf rows) (Tile (Number (Finite (of_int tw))) (Number (Finite (of_int th))))
              (Margins (Number (Finite (of_int xm))) (Number (Finite (of_int ym))))
            = Inr (Scalar 0 # map (\<lambda>r. Slice (take (nat tw) (drop (nat xm + 1) r)))
                                (take (nat th) (drop (nat ym) rows))))"
proof -
  have b: "\<bar>xm + 1\<bar> < 2 ^ 53" "\<bar>xm + 1 + tw\<bar> < 2 ^ 53" "\<bar>th + ym\<bar> < 2 ^ 53"
    "length rows \<le> 4294967295"
    using assms by simp_all
  have "js_slice r (xm + 1) (xm + 1 + tw) = take (nat tw) (drop (nat xm + 1) r)"
    if "0 \<le> xm" for r :: row
    using js_slice_nonneg [of "xm + 1" tw r] that assms(1) by (simp add: nat_add_distrib)
  then show ?thesis
    using assms(1,2) by (simp add: subImage_integers [OF assms(1,2) b])
qed

theorem subImage_row_bounds_witness:
  "subImage (ArrayOf [[Num 0, Pix [1, 1, 1, 255]]]) (Tile (Number (Finite 1)) (Number (Finite 2)))
     (Margins (Number (Finite 0)) (Number (Finite 0))) = Inl (SubImageExtractionError TypeError)
   \<and> subImage (ArrayOf [[Num 0, Pix [1, 1, 1, 255]]]) (Tile (Number (Finite 2)) (Number (Finite 1)))
     (Margins (Number (Finite 0)) (Number (Finite 0))) = Inr [Scalar 0, Slice [Pix [1, 1, 1, 255]]]"
  using subImage_row_bounds [of 1 2 0 0 "[[Num 0, Pix [1, 1, 1, 255]]]"]
    subImage_row_bounds [of 2 1 0 0 "[[Num 0, Pix [1, 1, 1, 255]]]"]
  by simp




text \<open>
  Claim C9, as stated: with a positive integer tile size, an integer \<open>xMargin \<le> -2\<close> and
  rows in range, \<open>subImage\<close> throws nothing, and each returned row consists of pixel groups
  taken relative to the end of the source row, so that the caller receives data of the wrong
  columns. The first part holds, the second fails: with \<open>xMargin = -2\<close> and a tile of
  width 1 the call is \<^verbatim>\<open>slice(-1, 0)\<close>, and the returned row is empty; the caller receives
  no pixel at all.
\<close>

theorem negative_xMargin_empty_row:
  "subImage (ArrayOf [[Num 0, Pix [1, 1, 1, 255], Pix [2, 2, 2, 255], Pix [3, 3, 3, 255]]])
     (Tile (Number (Finite 1)) (Number (Finite 1)))
     (Margins (Number (Finite (- 2))) (Number (Finite 0)))
   = Inr [Scalar 0, Slice []]"
  using subImage_integers [of 1 1 "- 2" 0
      "[[Num 0, Pix [1, 1, 1, 255], Pix [2, 2, 2, 255], Pix [3, 3, 3, 255]]]"]
  by (simp add: js_slice_def relative_index_def)

text \<open>
  Claim C9, amended: on an array grid (of fewer than \<open>2 ^ 32\<close> rows), with a positive
  integer tile size, an integer \<open>xMargin \<le> -2\<close>, both below \<open>2 ^ 52\<close> in magnitude, and
  rows in range, \<open>subImage\<close> throws nothing. Each returned row is the part of its source
  row that starts \<open>- xMargin - 1\<close> entries before the end of the row (at its first entry,
  if the row is shorter) and stops before the index \<open>xMargin + 1 + tileWidth\<close>, which counts
  from the end of the row when it is negative and from its start otherwise. The returned
  row is empty when that index does not lie behind the start; this is so for every row when
  \<open>tileWidth = - xMargin - 1\<close>.
\<close>

theorem subImage_negative_xMargin:
  assumes "0 < tw" "0 < th" "xm \<le> - 2" "0 \<le> ym" "ym + th \<le> int (length rows)"
    and "tw < 2 ^ 52" "- (2 ^ 52) < xm" "length rows < 2 ^ 32"
  shows "subImage (ArrayOf rows) (Tile (Number (Finite (of_int tw))) (Number (Finite (of_int th))))
           (Margins (Number (Finite (of_int xm))) (Number (Finite (of_int ym))))
         = Inr (Scalar 0 #
                map (\<lambda>r. Slice (take ((if xm + 1 + tw < 0
                                         then length r - nat (- (xm + 1 + tw))
                                         else min (nat (xm + 1 + tw)) (length r))
                                        - (length r - nat (- xm - 1)))
                                  (drop (length r - nat (- xm - 1)) r)))
                    (take (nat th) (drop (nat ym) rows)))
       \<and> (tw = - xm - 1 \<longrightarrow>
            subImage (ArrayOf rows) (Tile (Number (Finite (of_int tw))) (Number (Finite (of_int th))))
              (Margins (Number (Finite (of_int xm))) (Number (Finite (of_int ym))))
            = Inr (Scalar 0 # replicate (nat th) (Slice [])))"
proof -
  have b: "\<bar>xm + 1\<bar> < 2 ^ 53" "\<bar>xm + 1 + tw\<bar> < 2 ^ 53" "\<bar>th + ym\<bar> < 2 ^ 53"
    "length rows \<le> 4294967295"
    using assms by simp_all
  have start: "relative_index (xm + 1) n = n - nat (- xm - 1)" for n
    using assms(3) by (simp add: relative_index_def)
  have stop: "relative_index (xm + 1 + tw) n =
      (if xm + 1 + tw < 0 then n - nat (- (xm + 1 + tw)) else min (nat (xm + 1 + tw)) n)" for n
    by (auto simp: relative_index_def max_def; linarith)
  have sl: "js_slice r (xm + 1) (xm + 1 + tw) =
      take ((if xm + 1 + tw < 0 then length r - nat (- (xm + 1 + tw))
             else min (nat (xm + 1 + tw)) (length r)) - (length r - nat (- xm - 1)))
        (drop (length r - nat (- xm - 1)) r)" for r :: row
    unfolding js_slice_def Let_def start stop ..
  have whole: "subImage (ArrayOf rows)
        (Tile (Number (Finite (of_int tw))) (Number (Finite (of_int th))))
        (Margins (Number (Finite (of_int xm))) (Number (Finite (of_int ym))))
      = Inr (Scalar 0 # map (\<lambda>r. Slice (js_slice r (xm + 1) (xm + 1 + tw)))
                            (take (nat th) (drop (nat ym) rows)))"
    using assms(4,5) by (simp add: subImage_integers [OF assms(1,2) b])
  have len: "length (take (nat th) (drop (nat ym) rows)) = nat th"
    using assms(2,4,5) by simp
  have general: "subImage (ArrayOf rows)
        (Tile (Number (Finite (of_int tw))) (Number (Finite (of_int th))))
        (Margins (Number (Finite (of_int xm))) (Number (Finite (of_int ym))))
      = Inr (Scalar 0 #
             map (\<lambda>r. Slice (take ((if xm + 1 + tw < 0
                                      then length r - nat (- (xm + 1 + tw))
                                      else min (nat (xm + 1 + tw)) (length r))
                                     - (length r - nat (- xm - 1)))
                               (drop (length r - nat (- xm - 1)) r)))
                 (take (nat th) (drop (nat ym) rows)))"
    using whole unfolding sl .
  have empty: "subImage (ArrayOf rows)
        (Tile (Number (Finite (of_int tw))) (Number (Finite (of_int th))))
        (Margins (Number (Finite (of_int xm))) (Number (Finite (of_int ym))))
      = Inr (Scalar 0 # replicate (nat th) (Slice []))" if "tw = - xm - 1"
  proof -
    have "js_slice r (xm + 1) (xm + 1 + tw) = []" for r :: row
      using that by (simp add: js_slice_def relative_index_def)
    then have "map (\<lambda>r. Slice (js_slice r (xm + 1) (xm + 1 + tw)))
        (take (nat th) (drop (nat ym) rows)) = replicate (nat th) (Slice [])"
      using len by (simp add: map_replicate_const)
    with whole show ?thesis
      by (simp only:)
  qed
  show ?thesis
    using general empty by blast
qed

theorem subImage_negative_xMargin_witness:
  "subImage (ArrayOf [[Num 0, Pix [1, 1, 1, 255], Pix [2, 2, 2, 255], Pix [3, 3, 3, 255]]])
     (Tile (Number (Finite 1)) (Number (Finite 1)))
     (Margins (Number (Finite (- 3))) (Number (Finite 0)))
   = Inr [Scalar 0, Slice [Pix [2, 2, 2, 255]]]
   \<and> subImage (ArrayOf [[Num 0, Pix [1, 1, 1, 255], Pix [2, 2, 2, 255], Pix [3, 3, 3, 255]]])
     (Tile (Number (Finite 2)) (Number (Finite 1)))
     (Margins (Number (Finite (- 3))) (Number (Finite 0)))
   = Inr [Scalar 0, Slice []]"
  using subImage_negative_xMargin [of 1 1 "- 3" 0
      "[[Num 0, Pix [1, 1, 1, 255], Pix [2, 2, 2, 255], Pix [3, 3, 3, 255]]]"]
    subImage_negative_xMargin [of 2 1 "- 3" 0
      "[[Num 0, Pix [1, 1, 1, 255], Pix [2, 2, 2, 255], Pix [3, 3, 3, 255]]]"]
  by simp

end
